theory Spec2Isabelle
  imports Main "HOL-Library.Multiset"
begin

section \<open>edx-archive: the download orchestrator of src/index.ts\<close>

text \<open>
  The development follows \<^verbatim>\<open>src/index.ts\<close>: the helper \<^verbatim>\<open>clone\<close>, the option callback
  \<^verbatim>\<open>parseFormat\<close>, \<^verbatim>\<open>getConfiguration\<close> and \<^verbatim>\<open>main\<close>. A run of \<^verbatim>\<open>main\<close> is
  modelled as the list of its observable actions (calls of the downloader's methods, timer
  waits, browser launch and close, the debug dump, the error print) together with how the
  process ends. Console messages other than the configuration dump and the error print are
  not recorded.
\<close>

subsection \<open>JavaScript values, objects and the heap\<close>

text \<open>
  Numbers are the values \<^verbatim>\<open>parseInt\<close> yields for an option text (an integer, or NaN for a
  text that does not start with digits) and the numeric defaults of the options.
\<close>

datatype number = Fin int | NaN

datatype val = Str string | Number number | Bool bool | Undefined

type_synonym obj = "string \<rightharpoonup> val"

type_synonym ref = nat

text \<open>
  Objects live in a heap and are handled by reference, so that a mutation through one
  reference is seen through every alias. A reference is the index of its cell; references
  only come from \<open>alloc\<close>.
\<close>

type_synonym heap = "obj list"

definition alloc :: "heap \<Rightarrow> obj \<Rightarrow> heap \<times> ref" where
  "alloc h ob = (h @ [ob], length h)"

definition deref :: "heap \<Rightarrow> ref \<Rightarrow> obj" where
  "deref h r = (if r < length h then h ! r else Map.empty)"

text \<open>Reading a property that the object does not have gives \<^verbatim>\<open>undefined\<close>.\<close>

definition get_prop :: "heap \<Rightarrow> ref \<Rightarrow> string \<Rightarrow> val" where
  "get_prop h r k = (case deref h r k of None \<Rightarrow> Undefined | Some v \<Rightarrow> v)"

definition set_prop :: "heap \<Rightarrow> ref \<Rightarrow> string \<Rightarrow> val \<Rightarrow> heap" where
  "set_prop h r k v = h[r := (deref h r)(k \<mapsto> v)]"

text \<open>JavaScript truthiness, as used by \<^verbatim>\<open>if (configuration.debug)\<close> and \<^verbatim>\<open>!configuration.user\<close>.\<close>

fun truthy :: "val \<Rightarrow> bool" where
  "truthy (Str s) = (s \<noteq> [])"
| "truthy (Number (Fin n)) = (n \<noteq> 0)"
| "truthy (Number NaN) = False"
| "truthy (Bool b) = b"
| "truthy Undefined = False"

text \<open>
  \<^verbatim>\<open>Object.assign(target, source)\<close> copies the source's own properties into the target
  object, in place, and returns the target.
\<close>

definition Object_assign :: "heap \<Rightarrow> ref \<Rightarrow> ref \<Rightarrow> heap \<times> ref" where
  "Object_assign h target source = (h[target := deref h target ++ deref h source], target)"

text \<open>
  \<^verbatim>\<open>function clone(object: any, overwtite: any = {}) {
    return Object.assign(Object.assign({}, object), overwtite) }\<close>

  The second parameter is \<open>None\<close> when the caller leaves it out; the default \<^verbatim>\<open>{}\<close> is then
  allocated on entry.
\<close>

definition clone :: "heap \<Rightarrow> ref \<Rightarrow> ref option \<Rightarrow> heap \<times> ref" where
  "clone h object overwtite =
     (let (h1, ov) = (case overwtite of None \<Rightarrow> alloc h Map.empty | Some r \<Rightarrow> (h, r));
          (h2, fresh) = alloc h1 Map.empty;
          (h3, copy) = Object_assign h2 fresh object
      in Object_assign h3 copy ov)"

subsection \<open>The command line and getConfiguration\<close>

text \<open>
  \<^verbatim>\<open>function parseFormat(value, _) {
    if (!["pdf", "png"].includes(value)) { console.log(...); process.exit(1) }
    return value }\<close>

  \<open>Inl code\<close> is \<^verbatim>\<open>process.exit(code)\<close>.
\<close>

definition parseFormat :: "string \<Rightarrow> nat + string" where
  "parseFormat v = (if v \<notin> set [''pdf'', ''png''] then Inl 1 else Inr v)"

text \<open>
  The options as the command line gives them (lines 34 to 41): \<open>None\<close> for an option that is
  absent. The numeric options hold what \<^verbatim>\<open>parseInteger\<close>, that is \<^verbatim>\<open>parseInt\<close>, returned
  for their text.
\<close>

record command_line =
  user_opt :: "string option"
  password_opt :: "string option"
  output_opt :: "string option"
  format_opt :: "string option"
  retries_opt :: "number option"
  delay_opt :: "number option"
  concurrency_opt :: "number option"
  debug_opt :: bool
  positional :: "string list"

definition or_default :: "'a option \<Rightarrow> 'a \<Rightarrow> 'a" where
  "or_default x d = (case x of None \<Rightarrow> d | Some v \<Rightarrow> v)"

text \<open>
  \<^verbatim>\<open>program.opts()\<close> after \<^verbatim>\<open>.parse(process.argv)\<close>: one property per declared option, with
  the declared defaults; \<^verbatim>\<open>parseFormat\<close> runs on a given \<^verbatim>\<open>-f\<close> value and may end the
  process.
\<close>

definition program_opts :: "command_line \<Rightarrow> nat + obj" where
  "program_opts c =
     (case (case format_opt c of None \<Rightarrow> Inr ''pdf'' | Some v \<Rightarrow> parseFormat v) of
        Inl code \<Rightarrow> Inl code
      | Inr fmt \<Rightarrow> Inr
          [''user'' \<mapsto> (case user_opt c of None \<Rightarrow> Undefined | Some s \<Rightarrow> Str s),
           ''password'' \<mapsto> (case password_opt c of None \<Rightarrow> Undefined | Some s \<Rightarrow> Str s),
           ''output'' \<mapsto> Str (or_default (output_opt c) ''Archive''),
           ''format'' \<mapsto> Str fmt,
           ''retries'' \<mapsto> Number (or_default (retries_opt c) (Fin 3)),
           ''delay'' \<mapsto> Number (or_default (delay_opt c) (Fin 1)),
           ''concurrency'' \<mapsto> Number (or_default (concurrency_opt c) (Fin 4)),
           ''debug'' \<mapsto> Bool (debug_opt c)])"

text \<open>
  The regular expression \<^verbatim>\<open>/^https:\/\/courses.edx.org\/courses\/.*\/course\/$/\<close>: literal
  characters, the dot (any character but a line terminator) and \<^verbatim>\<open>.*\<close>, anchored at both
  ends. A string of the model is a JavaScript string all of whose UTF-16 code units are
  below 256, one \<open>char\<close> for each code unit. Of the four line terminators that the dot
  excludes, LF and CR are such code units; U+2028 and U+2029 are not, so no string of the
  model holds them.
\<close>

datatype rx = Lit char | Dot | DotStar

definition line_terminator :: "char \<Rightarrow> bool" where
  "line_terminator c = (c = CHR 0x0A \<or> c = CHR 0x0D)"

fun rx_match :: "rx list \<Rightarrow> string \<Rightarrow> bool" where
  "rx_match [] s = (s = [])"
| "rx_match (Lit c # p) [] = False"
| "rx_match (Lit c # p) (x # xs) = (x = c \<and> rx_match p xs)"
| "rx_match (Dot # p) [] = False"
| "rx_match (Dot # p) (x # xs) = (\<not> line_terminator x \<and> rx_match p xs)"
| "rx_match (DotStar # p) [] = rx_match p []"
| "rx_match (DotStar # p) (x # xs) =
     (rx_match p (x # xs) \<or> (\<not> line_terminator x \<and> rx_match (DotStar # p) xs))"

definition courseUrlPattern :: "rx list" where
  "courseUrlPattern =
     map Lit ''https://courses'' @ [Dot] @ map Lit ''edx'' @ [Dot] @
     map Lit ''org/courses/'' @ [DotStar] @ map Lit ''/course/''"

text \<open>
  \<^verbatim>\<open>getConfiguration\<close> (lines 27 to 66). \<open>Inl code\<close> is the process ending inside it:
  \<^verbatim>\<open>program.help()\<close> prints the usage and exits with status 0, an invalid format or course
  url exits with status 1. \<open>typed_user\<close> and \<open>typed_password\<close> are the answers to the two
  prompts. The result is a reference to the fresh configuration object.
\<close>

definition getConfiguration ::
  "command_line \<Rightarrow> string \<Rightarrow> string \<Rightarrow> heap \<Rightarrow> heap \<times> (nat + ref)" where
  "getConfiguration c typed_user typed_password h =
     (case program_opts c of
        Inl code \<Rightarrow> (h, Inl code)
      | Inr opts \<Rightarrow>
          (case positional c of
             [url] \<Rightarrow>
               if \<not> rx_match courseUrlPattern url then (h, Inl 1)
               else
                 let (h1, o_ref) = alloc h opts;
                     (h2, configuration) = clone h1 o_ref None;
                     h3 = set_prop h2 configuration ''courseUrl'' (Str url);
                     h4 = (if \<not> truthy (get_prop h3 configuration ''user'')
                           then set_prop h3 configuration ''user'' (Str typed_user) else h3);
                     h5 = (if \<not> truthy (get_prop h4 configuration ''password'')
                           then set_prop h4 configuration ''password'' (Str typed_password)
                           else h4)
                 in (h5, Inr configuration)
           | _ \<Rightarrow> (h, Inl 0)))"

subsection \<open>The downloader and the rest of the environment\<close>

type_synonym error = string

text \<open>
  Modelled from the spec: the \<^verbatim>\<open>Downloader\<close> interface of \<^verbatim>\<open>./Core\<close> and its implementation
  \<^verbatim>\<open>./EdxDownloader\<close> are not under src/. Section 6 of the specification gives the contract:
  authenticate succeeds or fails, discovery yields a finite sequence of tasks or fails,
  a download yields one result or fails, the report returns nothing. What a method does is
  given per invocation: \<open>login k\<close> is the outcome of the invocation number \<open>k\<close> (from 0),
  \<open>performDownload pos t k\<close> the outcome of the invocation number \<open>k\<close> for the task \<open>t\<close> at
  position \<open>pos\<close> of the task array. \<open>puppeteer_launch\<close> and \<open>browser_close\<close> say whether
  \<^verbatim>\<open>puppeteer.launch()\<close> and the awaited \<^verbatim>\<open>browser.close()\<close> reject.
\<close>

record ('t, 'r) environment =
  typed_user :: string
  typed_password :: string
  puppeteer_launch :: "error option"
  login :: "nat \<Rightarrow> error + unit"
  getDownloadTasks :: "nat \<Rightarrow> error + 't list"
  performDownload :: "nat \<Rightarrow> 't \<Rightarrow> nat \<Rightarrow> error + 'r"
  reportResults :: "'r list \<Rightarrow> error option"
  browser_close :: "error option"

text \<open>The observable actions of a run, and how the process ends (\<open>Pending\<close>: it never does).\<close>

datatype ('t, 'r) action =
    Dump obj
  | Launch
  | NewDownloader obj
  | Login
  | Wait nat
  | GetDownloadTasks
  | PerformDownload 't
  | ReportResults "'r list"
  | Close
  | ConsoleError error

datatype ending = Exit nat | Pending

subsection \<open>retryBackoff\<close>

text \<open>
  Modelled from the spec: \<^verbatim>\<open>retryBackoff\<close> is the operator of the package backoff-rxjs, which
  is not under src/. Sections 4.1 and 4.2 of the specification describe it: after a failure
  the policy either gives the delay to wait before the next attempt, growing exponentially
  from \<open>initial\<close> and capped at \<open>max\<close>, or says that the budget of \<open>maxRetries\<close> retries is
  spent. The definitions keep the package's own shape: it counts failures from 0
  (\<^verbatim>\<open>attempt = index++\<close>), retries while \<^verbatim>\<open>attempt < maxRetries\<close> and waits
  \<^verbatim>\<open>Math.min(Math.pow(2, attempt) * initialInterval, maxInterval)\<close> milliseconds.
\<close>

record backoff_config =
  initialInterval :: nat
  maxInterval :: nat
  maxRetries :: number

definition exponentialBackoffDelay :: "nat \<Rightarrow> nat \<Rightarrow> nat" where
  "exponentialBackoffDelay iteration initial = 2 ^ iteration * initial"

definition getDelay :: "nat \<Rightarrow> nat \<Rightarrow> nat" where
  "getDelay backoffDelay maxI = min backoffDelay maxI"

text \<open>The comparison \<^verbatim>\<open><\<close> of a count with a number: false when the number is NaN.\<close>

fun less_number :: "nat \<Rightarrow> number \<Rightarrow> bool" where
  "less_number k (Fin n) = (int k < n)"
| "less_number k NaN = False"

datatype decision = Delay nat | Exhausted

definition backoff :: "backoff_config \<Rightarrow> nat \<Rightarrow> decision" where
  "backoff cfg attempt =
     (if less_number attempt (maxRetries cfg)
      then Delay (getDelay (exponentialBackoffDelay attempt (initialInterval cfg)) (maxInterval cfg))
      else Exhausted)"

fun budget :: "number \<Rightarrow> nat" where
  "budget (Fin n) = nat n"
| "budget NaN = 0"

text \<open>
  The retried pipeline: \<open>source index\<close> is the outcome of subscribing to the source for the
  time number \<open>index\<close>, which calls the downloader's method again (\<open>call\<close> is the action
  recorded for it). A success ends the sequence with its value; a failure is looked up in
  the policy, which either waits and resubscribes or rethrows the error.
\<close>

function retryBackoff ::
  "backoff_config \<Rightarrow> ('t, 'r) action \<Rightarrow> (nat \<Rightarrow> error + 'a) \<Rightarrow> nat
     \<Rightarrow> ('t, 'r) action list \<times> (error + 'a)" where
  "retryBackoff cfg call source index =
     (case source index of
        Inr v \<Rightarrow> ([call], Inr v)
      | Inl e \<Rightarrow>
          (case backoff cfg index of
             Exhausted \<Rightarrow> ([call], Inl e)
           | Delay d \<Rightarrow>
               (let (acts, res) = retryBackoff cfg call source (Suc index)
                in (call # Wait d # acts, res))))"
  by pat_completeness auto

subsection \<open>mergeMap with a concurrency limit, collected by toArray\<close>

text \<open>
  Modelled from the spec: \<^verbatim>\<open>mergeMap(project, concurrent)\<close> and \<^verbatim>\<open>toArray()\<close> are operators
  of the package rxjs, which is not under src/. Section 4.3 of the specification describes
  the window: a task is started while fewer than \<open>N\<close> operations are in flight and queued
  otherwise, and a replacement is started as soon as an operation completes. The
  definitions keep the operator's own shape: \<open>mm_next\<close> is what it does with a value of the
  outer source (\<^verbatim>\<open>active < concurrent ? subscribe : buffer.push(value)\<close>), and the success
  branch of \<open>pool_step\<close> is what it does when an inner source completes
  (\<^verbatim>\<open>active--; if (buffer.length > 0) next(buffer.shift())\<close>). An error of an inner source is
  an error of the merged source: everything in flight is unsubscribed and nothing is
  emitted; \<^verbatim>\<open>index.ts\<close> installs no error handler inside the inner pipe.

  The inner source of a task is \<^verbatim>\<open>of(task).pipe(..., flatMap(downloader.performDownload), ...,
  retryBackoff(backoffConfig))\<close> (lines 126 to 132), so a slot holds the task with its own
  retry index. A slot is \<open>Running\<close> while a call of \<^verbatim>\<open>performDownload\<close> is outstanding and
  \<open>Sleeping\<close> while the timer of its backoff delay runs. Downloads settle asynchronously,
  after the task array has been handed over.
\<close>

datatype 't slot = Running nat 't nat | Sleeping nat 't nat

record ('t, 'r) pool =
  buffer :: "(nat \<times> 't) list"
  active :: "'t slot list"
  collected :: "'r list"
  failure :: "error option"
  acts :: "('t, 'r) action list"

definition empty_pool :: "('t, 'r) pool" where
  "empty_pool = \<lparr>buffer = [], active = [], collected = [], failure = None, acts = []\<rparr>"

definition mm_next :: "number \<Rightarrow> nat \<times> 't \<Rightarrow> ('t, 'r) pool \<Rightarrow> ('t, 'r) pool" where
  "mm_next concurrent job p =
     (if less_number (length (active p)) concurrent
      then p\<lparr>active := active p @ [Running (fst job) (snd job) 0],
             acts := acts p @ [PerformDownload (snd job)]\<rparr>
      else p\<lparr>buffer := buffer p @ [job]\<rparr>)"

text \<open>
  \<^verbatim>\<open>from(tasks)\<close> hands the tasks over one after the other; \<open>dispatch\<close> lists the state after
  each of them.
\<close>

fun dispatch :: "number \<Rightarrow> (nat \<times> 't) list \<Rightarrow> ('t, 'r) pool \<Rightarrow> ('t, 'r) pool list" where
  "dispatch concurrent [] p = []"
| "dispatch concurrent (job # jobs) p =
     (let p' = mm_next concurrent job p in p' # dispatch concurrent jobs p')"

definition subscribe :: "number \<Rightarrow> 't list \<Rightarrow> ('t, 'r) pool" where
  "subscribe concurrent tasks = last (empty_pool # dispatch concurrent (enumerate 0 tasks) empty_pool)"

text \<open>
  One event of the download phase, for the slot number \<open>choice mod length (active p)\<close>:
  the timer of a sleeping slot fires and the download is called again; or the outstanding
  call of a running slot settles, with a result (collected, the slot is freed and refilled
  from the buffer), or with a failure that the backoff policy answers by a delay or by
  giving up.
\<close>

definition pool_step ::
  "backoff_config \<Rightarrow> number \<Rightarrow> ('t, 'r) environment \<Rightarrow> nat \<Rightarrow> ('t, 'r) pool
     \<Rightarrow> ('t, 'r) pool" where
  "pool_step cfg concurrent env choice p =
     (let i = choice mod length (active p) in
      case active p ! i of
        Sleeping pos t k \<Rightarrow>
          p\<lparr>active := (active p)[i := Running pos t k], acts := acts p @ [PerformDownload t]\<rparr>
      | Running pos t k \<Rightarrow>
          (case performDownload env pos t k of
             Inr r \<Rightarrow>
               (let p1 = p\<lparr>active := take i (active p) @ drop (Suc i) (active p),
                            collected := collected p @ [r]\<rparr>
                in case buffer p1 of
                     [] \<Rightarrow> p1
                   | job # rest \<Rightarrow> mm_next concurrent job (p1\<lparr>buffer := rest\<rparr>))
           | Inl e \<Rightarrow>
               (case backoff cfg k of
                  Delay d \<Rightarrow>
                    p\<lparr>active := (active p)[i := Sleeping pos t (Suc k)], acts := acts p @ [Wait d]\<rparr>
                | Exhausted \<Rightarrow> p\<lparr>active := [], buffer := [], failure := Some e\<rparr>)))"

text \<open>The work left in a pool: it decreases with every event.\<close>

fun slot_weight :: "nat \<Rightarrow> 't slot \<Rightarrow> nat" where
  "slot_weight b (Running pos t k) = 2 * (b - k) + 1"
| "slot_weight b (Sleeping pos t k) = 2 * (b - k) + 2"

definition work :: "nat \<Rightarrow> ('t, 'r) pool \<Rightarrow> nat" where
  "work b p = sum_list (map (slot_weight b) (active p)) + (2 * b + 2) * length (buffer p)"

text \<open>
  The download phase runs events until nothing is in flight. Which slot has the next event
  is up to the timing of the downloads: \<open>sched\<close> lists the choices (slot 0 once the list is
  used up), so that every interleaving is the run of some \<open>sched\<close>. The result lists the
  states passed through; the last one is final.
\<close>

function pool_states ::
  "backoff_config \<Rightarrow> number \<Rightarrow> ('t, 'r) environment \<Rightarrow> nat list \<Rightarrow> ('t, 'r) pool
     \<Rightarrow> ('t, 'r) pool list" where
  "pool_states cfg concurrent env sched p =
     (if active p = [] then [p]
      else p # pool_states cfg concurrent env (tl sched)
                 (pool_step cfg concurrent env (case sched of [] \<Rightarrow> 0 | choice # _ \<Rightarrow> choice) p))"
  by pat_completeness auto

text \<open>
  What \<^verbatim>\<open>toArray()\<close> and \<^verbatim>\<open>toPromise()\<close> make of the final state: the promise rejects with
  the error of the merged source, or resolves with the collected results once every task
  has been started and has completed; it stays pending (\<open>None\<close>) when tasks are left in
  the buffer with nothing in flight.
\<close>

definition settled :: "('t, 'r) pool \<Rightarrow> (error + 'r list) option" where
  "settled p =
     (case failure p of
        Some e \<Rightarrow> Some (Inl e)
      | None \<Rightarrow> if buffer p = [] then Some (Inr (collected p)) else None)"

definition final_pool ::
  "backoff_config \<Rightarrow> number \<Rightarrow> ('t, 'r) environment \<Rightarrow> nat list \<Rightarrow> 't list
     \<Rightarrow> ('t, 'r) pool" where
  "final_pool cfg concurrent env sched tasks =
     last (pool_states cfg concurrent env sched (subscribe concurrent tasks))"

subsection \<open>main\<close>

text \<open>
  \<^verbatim>\<open>const backoffConfig = { initialInterval: 5000, maxInterval: 60000,
    maxRetries: configuration.retries }\<close>
\<close>

definition backoffConfig :: "number \<Rightarrow> backoff_config" where
  "backoffConfig retries = \<lparr>initialInterval = 5000, maxInterval = 60000, maxRetries = retries\<rparr>"

text \<open>
  The fields \<^verbatim>\<open>retries\<close> and \<^verbatim>\<open>concurrency\<close> of \<^verbatim>\<open>Configuration\<close> are numbers: the
  configuration object holds what \<open>program_opts\<close> put there.
\<close>

fun as_number :: "val \<Rightarrow> number" where
  "as_number (Number n) = n"
| "as_number v = NaN"

text \<open>
  Lines 75 to 78: with the debug flag, a clone of the configuration whose \<^verbatim>\<open>user\<close> and
  \<^verbatim>\<open>password\<close> are overwritten is printed.
\<close>

definition censor :: obj where
  "censor = [''user'' \<mapsto> Str ''<censored>'', ''password'' \<mapsto> Str ''<censored>'']"

definition main_debug :: "heap \<Rightarrow> ref \<Rightarrow> heap \<times> ('t, 'r) action list" where
  "main_debug h configuration =
     (if truthy (get_prop h configuration ''debug'')
      then (let (h1, literal) = alloc h censor;
                (h2, printed) = clone h1 configuration (Some literal)
            in (h2, [Dump (deref h2 printed)]))
      else (h, []))"

text \<open>
  The \<^verbatim>\<open>catch\<close> block (lines 144 to 148): the error is printed, the browser is closed when
  it has been assigned, and the process exits with status 1.
\<close>

definition catch :: "error \<Rightarrow> bool \<Rightarrow> ('t, 'r) action list \<times> ending" where
  "catch e browser = (ConsoleError e # (if browser then [Close] else []), Exit 1)"

text \<open>Lines 138 to 143: the report, the shutdown, and the normal end of the process.\<close>

definition main_report ::
  "('t, 'r) environment \<Rightarrow> 'r list \<Rightarrow> ('t, 'r) action list \<times> ending" where
  "main_report env results =
     (case reportResults env results of
        Some e \<Rightarrow> (let (as, ending) = catch e True in (ReportResults results # as, ending))
      | None \<Rightarrow>
          (case browser_close env of
             Some e \<Rightarrow>
               (let (as, ending) = catch e True in (ReportResults results # Close # as, ending))
           | None \<Rightarrow> ([ReportResults results, Close], Exit 0)))"

text \<open>Lines 120 to 136: the downloads, at most \<^verbatim>\<open>configuration.concurrency\<close> at a time.\<close>

definition main_downloads ::
  "backoff_config \<Rightarrow> number \<Rightarrow> ('t, 'r) environment \<Rightarrow> nat list \<Rightarrow> 't list
     \<Rightarrow> ('t, 'r) action list \<times> ending" where
  "main_downloads cfg concurrent env sched tasks =
     (let p = final_pool cfg concurrent env sched tasks in
      case settled p of
        None \<Rightarrow> (acts p, Pending)
      | Some (Inl e) \<Rightarrow> (let (as, ending) = catch e True in (acts p @ as, ending))
      | Some (Inr results) \<Rightarrow>
          (let (as, ending) = main_report env results in (acts p @ as, ending)))"

text \<open>Lines 108 to 118: the task discovery, retried as a whole.\<close>

definition main_tasks ::
  "backoff_config \<Rightarrow> number \<Rightarrow> ('t, 'r) environment \<Rightarrow> nat list
     \<Rightarrow> ('t, 'r) action list \<times> ending" where
  "main_tasks cfg concurrent env sched =
     (case retryBackoff cfg GetDownloadTasks (getDownloadTasks env) 0 of
        (as1, Inl e) \<Rightarrow> (let (as, ending) = catch e True in (as1 @ as, ending))
      | (as1, Inr tasks) \<Rightarrow>
          (let (as, ending) = main_downloads cfg concurrent env sched tasks
           in (as1 @ as, ending)))"

text \<open>Lines 99 to 106: the login, retried.\<close>

definition main_login ::
  "backoff_config \<Rightarrow> number \<Rightarrow> ('t, 'r) environment \<Rightarrow> nat list
     \<Rightarrow> ('t, 'r) action list \<times> ending" where
  "main_login cfg concurrent env sched =
     (case retryBackoff cfg Login (login env) 0 of
        (as1, Inl e) \<Rightarrow> (let (as, ending) = catch e True in (as1 @ as, ending))
      | (as1, Inr u) \<Rightarrow>
          (let (as, ending) = main_tasks cfg concurrent env sched in (as1 @ as, ending)))"

text \<open>
  \<^verbatim>\<open>main\<close> (lines 68 to 149). A \<^verbatim>\<open>process.exit\<close> inside \<^verbatim>\<open>getConfiguration\<close> ends the
  process there. The construction of the downloader records the configuration object it
  is given.
\<close>

definition main ::
  "command_line \<Rightarrow> ('t, 'r) environment \<Rightarrow> nat list \<Rightarrow> ('t, 'r) action list \<times> ending"
  where
  "main c env sched =
     (case getConfiguration c (typed_user env) (typed_password env) [] of
        (h, Inl code) \<Rightarrow> ([], Exit code)
      | (h, Inr configuration) \<Rightarrow>
          (let (h', dump) = main_debug h configuration;
               cfg = backoffConfig (as_number (get_prop h' configuration ''retries''));
               concurrent = as_number (get_prop h' configuration ''concurrency'')
           in case puppeteer_launch env of
                Some e \<Rightarrow> (let (as, ending) = catch e False in (dump @ Launch # as, ending))
              | None \<Rightarrow>
                  (let (as, ending) = main_login cfg concurrent env sched
                   in (dump @ Launch # NewDownloader (deref h' configuration) # as, ending))))"

section \<open>Notions used in the statements and proofs\<close>

text \<open>
  The credential the configuration ends up with: the option when it is given and not
  empty, else the answer to the prompt.
\<close>

definition given_or_typed :: "string option \<Rightarrow> string \<Rightarrow> string" where
  "given_or_typed opt typed =
     (case opt of None \<Rightarrow> typed | Some s \<Rightarrow> if s = [] then typed else s)"

text \<open>The effect of \<^verbatim>\<open>if (!configuration.k) configuration.k = typed\<close> on the object.\<close>

definition fill_in :: "obj \<Rightarrow> string \<Rightarrow> string \<Rightarrow> obj" where
  "fill_in ob k typed =
     (if truthy (case ob k of None \<Rightarrow> Undefined | Some v \<Rightarrow> v) then ob else ob(k \<mapsto> Str typed))"

text \<open>The download phase records calls of the download and timer waits only.\<close>

fun download_act :: "('t, 'r) action \<Rightarrow> bool" where
  "download_act (PerformDownload t) = True"
| "download_act (Wait d) = True"
| "download_act a = False"

text \<open>The actions after the launch: none of them is a dump, a launch or a construction.\<close>

fun startup_act :: "('t, 'r) action \<Rightarrow> bool" where
  "startup_act (Dump ob) = True"
| "startup_act Launch = True"
| "startup_act (NewDownloader ob) = True"
| "startup_act a = False"

text \<open>The retried login and the retried discovery, as \<open>main_login\<close> and \<open>main_tasks\<close> run them.\<close>

definition login_phase ::
  "backoff_config \<Rightarrow> ('t, 'r) environment \<Rightarrow> ('t, 'r) action list \<times> (error + unit)" where
  "login_phase cfg env = retryBackoff cfg Login (login env) 0"

definition discovery_phase ::
  "backoff_config \<Rightarrow> ('t, 'r) environment \<Rightarrow> ('t, 'r) action list \<times> (error + 't list)" where
  "discovery_phase cfg env = retryBackoff cfg GetDownloadTasks (getDownloadTasks env) 0"

text \<open>
  At most \<open>n\<close> slots are taken, and a task waits in the buffer only while all \<open>n\<close> are.
\<close>

definition window :: "int \<Rightarrow> ('t, 'r) pool \<Rightarrow> bool" where
  "window n p \<longleftrightarrow>
     int (length (active p)) \<le> n \<and> (buffer p = [] \<or> int (length (active p)) = n)"

text \<open>
  The task at \<open>pos\<close> has a successful call among those the budget still allows from call
  number \<open>k\<close> on.
\<close>

definition succeeds_from ::
  "backoff_config \<Rightarrow> ('t, 'r) environment \<Rightarrow> nat \<Rightarrow> 't \<Rightarrow> nat \<Rightarrow> bool" where
  "succeeds_from cfg env pos t k \<longleftrightarrow>
     (\<exists>k'. k \<le> k' \<and> k' \<le> budget (maxRetries cfg) \<and> (\<exists>res. performDownload env pos t k' = Inr res))"

fun slot_succeeds :: "backoff_config \<Rightarrow> ('t, 'r) environment \<Rightarrow> 't slot \<Rightarrow> bool" where
  "slot_succeeds cfg env (Running pos t k) = succeeds_from cfg env pos t k"
| "slot_succeeds cfg env (Sleeping pos t k) = succeeds_from cfg env pos t k"

definition population :: "('t, 'r) pool \<Rightarrow> nat" where
  "population p = length (collected p) + length (active p) + length (buffer p)"

definition thriving :: "backoff_config \<Rightarrow> ('t, 'r) environment \<Rightarrow> ('t, 'r) pool \<Rightarrow> bool" where
  "thriving cfg env p \<longleftrightarrow>
     failure p = None
     \<and> list_all (slot_succeeds cfg env) (active p)
     \<and> list_all (\<lambda>job. succeeds_from cfg env (fst job) (snd job) 0) (buffer p)"

fun slot_job :: "'t slot \<Rightarrow> nat \<times> 't" where
  "slot_job (Running pos t k) = (pos, t)"
| "slot_job (Sleeping pos t k) = (pos, t)"

text \<open>The job is still in the pool (waiting or in flight), or the pool has failed.\<close>

definition pending_or_failed :: "nat \<times> 't \<Rightarrow> ('t, 'r) pool \<Rightarrow> bool" where
  "pending_or_failed job p \<longleftrightarrow>
     failure p \<noteq> None \<or> job \<in> set (buffer p) \<or> job \<in> slot_job ` set (active p)"

fun slot_index :: "'t slot \<Rightarrow> nat" where
  "slot_index (Running pos t k) = k"
| "slot_index (Sleeping pos t k) = k"

text \<open>No slot is past the retry budget.\<close>

definition in_budget :: "backoff_config \<Rightarrow> ('t, 'r) pool \<Rightarrow> bool" where
  "in_budget cfg p \<longleftrightarrow> list_all (\<lambda>s. slot_index s \<le> budget (maxRetries cfg)) (active p)"

fun report_act :: "('t, 'r) action \<Rightarrow> bool" where
  "report_act (ReportResults rs) = True"
| "report_act a = False"

fun shutdown_act :: "('t, 'r) action \<Rightarrow> bool" where
  "shutdown_act Close = True"
| "shutdown_act (ConsoleError e) = True"
| "shutdown_act a = False"

text \<open>No report at all, or one report followed by nothing but the shutdown.\<close>

definition report_then_shutdown :: "('t, 'r) action list \<Rightarrow> bool" where
  "report_then_shutdown as \<longleftrightarrow>
     list_all (\<lambda>a. \<not> report_act a) as
     \<or> (\<exists>pre rs post. as = pre @ ReportResults rs # post
           \<and> list_all (\<lambda>a. \<not> report_act a) pre \<and> list_all shutdown_act post)"

text \<open>
  A part of a run that ends the process ends with closing the browser, and it has printed
  an error only if the exit status is 1.
\<close>

definition ends_closed :: "('t, 'r) action list \<times> ending \<Rightarrow> bool" where
  "ends_closed x \<longleftrightarrow>
     (\<forall>code. snd x = Exit code \<longrightarrow> fst x \<noteq> [] \<and> last (fst x) = Close)
     \<and> (\<forall>e. ConsoleError e \<in> set (fst x) \<longrightarrow> snd x = Exit 1)"

text \<open>
  The calls of the three phases in a run, in the order in which they are made: 1 for a
  login call, 2 for a call of the task discovery, 3 for a download call.
\<close>

fun phases :: "('t, 'r) action list \<Rightarrow> nat list" where
  "phases [] = []"
| "phases (Login # as) = 1 # phases as"
| "phases (GetDownloadTasks # as) = 2 # phases as"
| "phases (PerformDownload t # as) = 3 # phases as"
| "phases (a # as) = phases as"

definition in_order :: "nat \<Rightarrow> ('t, 'r) action list \<Rightarrow> bool" where
  "in_order k as \<longleftrightarrow> sorted (phases as) \<and> (\<forall>x \<in> set (phases as). k \<le> x)"

text \<open>Every task in the pool, and every download called so far, is of the task array.\<close>

definition of_tasks :: "'t list \<Rightarrow> ('t, 'r) pool \<Rightarrow> bool" where
  "of_tasks tasks p \<longleftrightarrow>
     (\<forall>t. PerformDownload t \<in> set (acts p) \<longrightarrow> t \<in> set tasks)
     \<and> (\<forall>job \<in> set (buffer p). snd job \<in> set tasks)
     \<and> (\<forall>s \<in> set (active p). snd (slot_job s) \<in> set tasks)"

text \<open>
  The positions, in the task array, of the tasks that are in flight or waiting.
\<close>

definition positions :: "('t, 'r) pool \<Rightarrow> nat list" where
  "positions p = map (fst \<circ> slot_job) (active p) @ map fst (buffer p)"

text \<open>
  \<open>res\<close> is the outcome of the first successful call of the download of the task at \<open>pos\<close>,
  made within the retry budget: all the calls before it failed.
\<close>

definition first_success ::
  "backoff_config \<Rightarrow> ('t, 'r) environment \<Rightarrow> 't list \<Rightarrow> nat \<Rightarrow> 'r \<Rightarrow> bool" where
  "first_success cfg env tasks pos res \<longleftrightarrow>
     (\<exists>k \<le> budget (maxRetries cfg). performDownload env pos (tasks ! pos) k = Inr res
        \<and> (\<forall>j < k. \<exists>e. performDownload env pos (tasks ! pos) j = Inl e))"

text \<open>
  A slot holds a task of the array at its own position, is within the retry budget, and
  every call of its download before the slot's retry index has failed.
\<close>

definition slot_sound ::
  "backoff_config \<Rightarrow> ('t, 'r) environment \<Rightarrow> 't list \<Rightarrow> 't slot \<Rightarrow> bool" where
  "slot_sound cfg env tasks s \<longleftrightarrow>
     snd (slot_job s) = tasks ! fst (slot_job s)
     \<and> slot_index s \<le> budget (maxRetries cfg)
     \<and> (\<forall>j < slot_index s. \<exists>e. performDownload env (fst (slot_job s)) (snd (slot_job s)) j = Inl e)"

text \<open>Every slot is sound and every waiting job is a task of the array at its position.\<close>

definition consistent ::
  "backoff_config \<Rightarrow> ('t, 'r) environment \<Rightarrow> 't list \<Rightarrow> ('t, 'r) pool \<Rightarrow> bool" where
  "consistent cfg env tasks p \<longleftrightarrow>
     list_all (slot_sound cfg env tasks) (active p)
     \<and> list_all (\<lambda>job. snd job = tasks ! fst job) (buffer p)"

text \<open>
  The bookkeeping of a pool that has not failed: its results are the first successes of the
  tasks at the positions \<open>ps\<close>, in the order of completion, and every position of the task
  array is either in \<open>ps\<close> or still in the pool, exactly once.
\<close>

definition accounted ::
  "backoff_config \<Rightarrow> ('t, 'r) environment \<Rightarrow> 't list \<Rightarrow> nat list \<Rightarrow> ('t, 'r) pool \<Rightarrow> bool" where
  "accounted cfg env tasks ps p \<longleftrightarrow>
     list_all2 (first_success cfg env tasks) ps (collected p)
     \<and> mset ps + mset (positions p) = mset [0..<length tasks]
     \<and> consistent cfg env tasks p"

subsection \<open>Example command lines and environments\<close>

definition c10 :: command_line where
  "c10 = \<lparr>user_opt = Some ''ann@example.org'', password_opt = None, output_opt = None,
     format_opt = Some ''png'', retries_opt = None, delay_opt = None, concurrency_opt = None,
     debug_opt = True, positional = [''https://courses.edx.org/courses/X/course/'']\<rparr>"

definition c9 :: command_line where
  "c9 = \<lparr>user_opt = Some ''ann@example.org'', password_opt = Some ''pw'', output_opt = None,
     format_opt = None, retries_opt = None, delay_opt = None, concurrency_opt = None,
     debug_opt = False, positional = [''https://courses.edx.org/courses/X/course/'']\<rparr>"

definition e9 :: "(string, string) environment" where
  "e9 = \<lparr>typed_user = [], typed_password = [], puppeteer_launch = None,
     login = (\<lambda>k. if k = 0 then Inl ''net::ERR_TIMED_OUT'' else Inr ()),
     getDownloadTasks = (\<lambda>k. Inr [''week1'']),
     performDownload = (\<lambda>pos t k. Inr (t @ ''.pdf'')), reportResults = (\<lambda>rs. None),
     browser_close = None\<rparr>"

definition c4 :: command_line where
  "c4 = \<lparr>user_opt = Some ''ann@example.org'', password_opt = Some ''pw'', output_opt = None,
     format_opt = None, retries_opt = Some (Fin 2), delay_opt = None, concurrency_opt = None,
     debug_opt = False, positional = [''https://courses.edx.org/courses/X/course/'']\<rparr>"

definition e4 :: "(string, string) environment" where
  "e4 = \<lparr>typed_user = [], typed_password = [], puppeteer_launch = None,
     login = (\<lambda>k. Inr ()),
     getDownloadTasks = (\<lambda>k. Inl ''net::ERR_TIMED_OUT''),
     performDownload = (\<lambda>pos t k. Inr (t @ ''.pdf'')), reportResults = (\<lambda>rs. None),
     browser_close = None\<rparr>"

definition e2 :: "(string, string) environment" where
  "e2 = \<lparr>typed_user = [], typed_password = [], puppeteer_launch = None,
     login = (\<lambda>k. Inr ()), getDownloadTasks = (\<lambda>k. Inr [''a'', ''b'', ''c'']),
     performDownload = (\<lambda>pos t k. Inr (t @ ''.pdf'')), reportResults = (\<lambda>rs. None),
     browser_close = None\<rparr>"

text \<open>
  A run in which the second of two tasks fails on every call, with a budget of one retry:
  the first download succeeds, the second is called twice, and the run is over.
\<close>

definition c1 :: command_line where
  "c1 = \<lparr>user_opt = Some ''ann@example.org'', password_opt = Some ''pw'', output_opt = None,
     format_opt = None, retries_opt = Some (Fin 1), delay_opt = None, concurrency_opt = None,
     debug_opt = False, positional = [''https://courses.edx.org/courses/X/course/'']\<rparr>"

definition e1 :: "(string, string) environment" where
  "e1 = \<lparr>typed_user = [], typed_password = [], puppeteer_launch = None,
     login = (\<lambda>k. Inr ()),
     getDownloadTasks = (\<lambda>k. Inr [''week1'', ''week2'']),
     performDownload = (\<lambda>pos t k. if t = ''week2'' then Inl ''timeout'' else Inr (t @ ''.pdf'')),
     reportResults = (\<lambda>rs. None), browser_close = None\<rparr>"

definition w1 :: "(string, string) environment" where
  "w1 = \<lparr>typed_user = [], typed_password = [], puppeteer_launch = None,
     login = (\<lambda>k. Inr ()),
     getDownloadTasks = (\<lambda>k. Inr [''week1'', ''week2'']),
     performDownload = (\<lambda>pos t k. if t = ''week2'' \<and> k = 0 then Inl ''timeout''
                                   else Inr (t @ ''.pdf'')),
     reportResults = (\<lambda>rs. None), browser_close = None\<rparr>"

definition c7 :: command_line where
  "c7 = \<lparr>user_opt = Some ''ann@example.org'', password_opt = Some ''pw'', output_opt = None,
     format_opt = None, retries_opt = Some (Fin 0), delay_opt = None,
     concurrency_opt = Some (Fin 1), debug_opt = False,
     positional = [''https://courses.edx.org/courses/X/course/'']\<rparr>"

definition e7 :: "(string, string) environment" where
  "e7 = \<lparr>typed_user = [], typed_password = [], puppeteer_launch = None,
     login = (\<lambda>k. Inr ()),
     getDownloadTasks = (\<lambda>k. Inr [''week1'']),
     performDownload = (\<lambda>pos t k. Inl ''timeout''),
     reportResults = (\<lambda>rs. None), browser_close = None\<rparr>"

definition w7 :: "(string, string) environment" where
  "w7 = \<lparr>typed_user = [], typed_password = [], puppeteer_launch = None,
     login = (\<lambda>k. Inr ()),
     getDownloadTasks = (\<lambda>k. Inr [''week1'']),
     performDownload = (\<lambda>pos t k. Inr (t @ ''.pdf'')),
     reportResults = (\<lambda>rs. None), browser_close = None\<rparr>"

definition c8 :: "int \<Rightarrow> command_line" where
  "c8 n = \<lparr>user_opt = Some ''ann@example.org'', password_opt = Some ''pw'', output_opt = None,
     format_opt = None, retries_opt = None, delay_opt = None,
     concurrency_opt = Some (Fin n), debug_opt = False,
     positional = [''https://courses.edx.org/courses/X/course/'']\<rparr>"

definition e6 :: "(string, string) environment" where
  "e6 = \<lparr>typed_user = [], typed_password = [], puppeteer_launch = None,
     login = (\<lambda>k. Inl ''denied''),
     getDownloadTasks = (\<lambda>k. Inr [''week1'']),
     performDownload = (\<lambda>pos t k. Inr (t @ ''.pdf'')),
     reportResults = (\<lambda>rs. None), browser_close = None\<rparr>"

section \<open>Facts about the model\<close>

subsection \<open>Termination of the retry sequence and of the download phase\<close>

lemma deref_alloc_new: "alloc h ob = (h', r) \<Longrightarrow> deref h' r = ob"
  by (auto simp: alloc_def deref_def)

lemma backoff_Delay_budget: "backoff cfg index = Delay d \<Longrightarrow> index < budget (maxRetries cfg)"
  by (cases "maxRetries cfg") (auto simp: backoff_def split: if_splits)

termination retryBackoff
  by (relation "measure (\<lambda>(cfg, call, source, index). budget (maxRetries cfg) - index)")
    (auto dest: backoff_Delay_budget)

declare retryBackoff.simps [simp del]

lemma sum_list_remove_nth:
  fixes f :: "'a \<Rightarrow> nat"
  shows "i < length xs \<Longrightarrow> sum_list (map f (take i xs @ drop (Suc i) xs)) + f (xs ! i) = sum_list (map f xs)"
proof -
  assume "i < length xs"
  then have "xs = take i xs @ xs ! i # drop (Suc i) xs" by (rule id_take_nth_drop)
  then have "sum_list (map f xs) = sum_list (map f (take i xs @ xs ! i # drop (Suc i) xs))" by simp
  then show ?thesis by simp
qed

lemma sum_list_update_nth:
  fixes f :: "'a \<Rightarrow> nat"
  shows "i < length xs \<Longrightarrow> sum_list (map f (xs[i := y])) + f (xs ! i) = sum_list (map f xs) + f y"
proof -
  assume i: "i < length xs"
  have "xs[i := y] = take i xs @ y # drop (Suc i) xs" using i by (rule upd_conv_take_nth_drop)
  then have "sum_list (map f (xs[i := y])) = sum_list (map f (take i xs @ drop (Suc i) xs)) + f y" by simp
  with sum_list_remove_nth [OF i, of f] show ?thesis by simp
qed

lemma work_mm_next: "work b (mm_next c job p) \<le> work b p + (2 * b + 2)"
  by (simp add: mm_next_def work_def)

lemma work_mm_next_refill:
  "work b (mm_next c job (p\<lparr>buffer := rest\<rparr>)) \<le> work b (p\<lparr>buffer := job # rest\<rparr>)"
  by (simp add: mm_next_def work_def)

lemma pool_step_work:
  assumes "active p \<noteq> []"
  shows "work (budget (maxRetries cfg)) (pool_step cfg c env choice p) < work (budget (maxRetries cfg)) p"
proof -
  let ?b = "budget (maxRetries cfg)"
  let ?i = "choice mod length (active p)"
  have i: "?i < length (active p)" using assms by simp
  show ?thesis
  proof (cases "active p ! ?i")
    case (Sleeping pos t k)
    then show ?thesis
      using sum_list_update_nth [OF i, of "slot_weight ?b" "Running pos t k"]
      by (simp add: pool_step_def work_def Let_def)
  next
    case (Running pos t k)
    show ?thesis
    proof (cases "performDownload env pos t k")
      case (Inr r)
      then show ?thesis
        using Running sum_list_remove_nth [OF i, of "slot_weight ?b"]
        by (cases "buffer p") (auto simp add: pool_step_def work_def Let_def mm_next_def)
    next
      case (Inl e)
      show ?thesis
      proof (cases "backoff cfg k")
        case Exhausted
        then show ?thesis
          using Running Inl sum_list_remove_nth [OF i, of "slot_weight ?b"]
          by (simp add: pool_step_def work_def Let_def)
      next
        case (Delay d)
        then have "k < ?b" by (rule backoff_Delay_budget)
        then show ?thesis
          using Running Inl Delay sum_list_update_nth [OF i, of "slot_weight ?b" "Sleeping pos t (Suc k)"]
          by (simp add: pool_step_def work_def Let_def)
      qed
    qed
  qed
qed

termination pool_states
  by (relation "measure (\<lambda>(cfg, concurrent, env, sched, p). work (budget (maxRetries cfg)) p)")
    (auto intro: pool_step_work)

declare pool_states.simps [simp del]

subsection \<open>Facts about the configuration and the shape of a run\<close>

lemma deref_append: "r < length h \<Longrightarrow> deref (h @ xs) r = deref h r"
  by (simp add: deref_def nth_append)

lemma deref_append_new: "deref (h @ [ob]) (length h) = ob"
  by (simp add: deref_def)

lemma clone_None:
  assumes "r < length h"
  shows "clone h r None = (h @ [Map.empty, deref h r], Suc (length h))"
  using assms
  by (simp add: clone_def alloc_def Object_assign_def deref_def nth_append list_update_append)

lemma clone_Some:
  assumes "r < length h" and "ov < length h"
  shows "clone h r (Some ov) = (h @ [deref h r ++ deref h ov], length h)"
  using assms
  by (simp add: clone_def alloc_def Object_assign_def deref_def nth_append list_update_append)

lemma getConfiguration_Inr_heap:
  assumes "getConfiguration c tu tp [] = (h, Inr r)"
  shows "\<exists>opts url. program_opts c = Inr opts \<and> positional c = [url] \<and> r = 2
           \<and> h = [opts, Map.empty,
                 fill_in (fill_in (opts(''courseUrl'' \<mapsto> Str url)) ''user'' tu) ''password'' tp]"
proof -
  from assms obtain opts where opts: "program_opts c = Inr opts"
    by (auto simp: getConfiguration_def split: sum.splits)
  from assms opts obtain url where url: "positional c = [url]"
    by (auto simp: getConfiguration_def split: list.splits)
  have cl: "clone [opts] 0 None = ([opts, Map.empty, opts], 2)"
    using clone_None [of 0 "[opts]"] by (simp add: deref_def)
  from assms opts url have m: "rx_match courseUrlPattern url"
    by (auto simp: getConfiguration_def split: if_splits)
  have "getConfiguration c tu tp [] =
      ([opts, Map.empty,
        fill_in (fill_in (opts(''courseUrl'' \<mapsto> Str url)) ''user'' tu) ''password'' tp], Inr 2)"
    using m by (simp add: getConfiguration_def opts url alloc_def cl set_prop_def get_prop_def
        deref_def fill_in_def Let_def)
  with assms opts url show ?thesis by simp
qed

lemma program_opts_Inr:
  assumes "program_opts c = Inr opts"
  shows "opts ''retries'' = Some (Number (or_default (retries_opt c) (Fin 3)))"
    and "opts ''concurrency'' = Some (Number (or_default (concurrency_opt c) (Fin 4)))"
    and "opts ''debug'' = Some (Bool (debug_opt c))"
    and "opts ''user'' = Some (case user_opt c of None \<Rightarrow> Undefined | Some s \<Rightarrow> Str s)"
    and "opts ''password'' = Some (case password_opt c of None \<Rightarrow> Undefined | Some s \<Rightarrow> Str s)"
  using assms by (auto simp: program_opts_def split: sum.splits)

lemma fill_in_other: "k' \<noteq> k \<Longrightarrow> fill_in ob k typed k' = ob k'"
  by (simp add: fill_in_def)

lemma fill_in_given:
  "ob k = Some (case opt of None \<Rightarrow> Undefined | Some s \<Rightarrow> Str s)
     \<Longrightarrow> fill_in ob k typed k = Some (Str (given_or_typed opt typed))"
  by (cases opt) (simp_all add: fill_in_def given_or_typed_def)

lemma getConfiguration_Inr:
  assumes "getConfiguration c tu tp [] = (h, Inr r)"
  shows "r < length h"
    and "deref h r ''retries'' = Some (Number (or_default (retries_opt c) (Fin 3)))"
    and "deref h r ''concurrency'' = Some (Number (or_default (concurrency_opt c) (Fin 4)))"
    and "deref h r ''debug'' = Some (Bool (debug_opt c))"
    and "deref h r ''user'' = Some (Str (given_or_typed (user_opt c) tu))"
    and "deref h r ''password'' = Some (Str (given_or_typed (password_opt c) tp))"
proof -
  from getConfiguration_Inr_heap [OF assms] obtain opts url where
    opts: "program_opts c = Inr opts" and r: "r = 2" and
    h: "h = [opts, Map.empty,
         fill_in (fill_in (opts(''courseUrl'' \<mapsto> Str url)) ''user'' tu) ''password'' tp]"
    by blast
  note po = program_opts_Inr [OF opts]
  have d: "deref h r
      = fill_in (fill_in (opts(''courseUrl'' \<mapsto> Str url)) ''user'' tu) ''password'' tp"
    by (simp add: h r deref_def)
  show "r < length h" by (simp add: h r)
  show "deref h r ''retries'' = Some (Number (or_default (retries_opt c) (Fin 3)))"
    by (simp add: d fill_in_other po)
  show "deref h r ''concurrency'' = Some (Number (or_default (concurrency_opt c) (Fin 4)))"
    by (simp add: d fill_in_other po)
  show "deref h r ''debug'' = Some (Bool (debug_opt c))"
    by (simp add: d fill_in_other po)
  show "deref h r ''user'' = Some (Str (given_or_typed (user_opt c) tu))"
    by (simp add: d fill_in_other fill_in_given po)
  show "deref h r ''password'' = Some (Str (given_or_typed (password_opt c) tp))"
    by (simp add: d fill_in_other fill_in_given po)
qed

lemma main_debug_eq:
  assumes "r < length h"
  shows "main_debug h r =
     (if truthy (get_prop h r ''debug'')
      then (h @ [censor, deref h r ++ censor], [Dump (deref h r ++ censor)])
      else (h, []))"
proof -
  have "clone (h @ [censor]) r (Some (length h))
      = ((h @ [censor]) @ [deref (h @ [censor]) r ++ deref (h @ [censor]) (length h)],
         length (h @ [censor]))"
    using assms by (intro clone_Some) simp_all
  then have cl: "clone (h @ [censor]) r (Some (length h))
      = ((h @ [censor]) @ [deref h r ++ censor], length (h @ [censor]))"
    using assms by (simp add: deref_append deref_append_new)
  have "deref ((h @ [censor]) @ [deref h r ++ censor]) (length (h @ [censor]))
      = deref h r ++ censor"
    by (rule deref_append_new)
  then show ?thesis
    by (simp add: main_debug_def alloc_def cl)
qed

lemma main_debug_keeps:
  assumes "main_debug h r = (h', dump)" and "r < length h" and "a < length h"
  shows "deref h' a = deref h a"
  using assms by (auto simp: main_debug_eq deref_append split: if_splits)

lemma get_prop_append: "r < length h \<Longrightarrow> get_prop (h @ xs) r k = get_prop h r k"
  by (simp add: get_prop_def deref_append)

lemma main_Inr:
  assumes "getConfiguration c (typed_user env) (typed_password env) [] = (h, Inr r)"
  shows "main c env sched =
     (case puppeteer_launch env of
        Some e \<Rightarrow>
          ((if debug_opt c then [Dump (deref h r ++ censor)] else []) @ [Launch, ConsoleError e],
           Exit 1)
      | None \<Rightarrow>
          ((if debug_opt c then [Dump (deref h r ++ censor)] else [])
             @ Launch # NewDownloader (deref h r)
             # fst (main_login (backoffConfig (or_default (retries_opt c) (Fin 3)))
                     (or_default (concurrency_opt c) (Fin 4)) env sched),
           snd (main_login (backoffConfig (or_default (retries_opt c) (Fin 3)))
                     (or_default (concurrency_opt c) (Fin 4)) env sched)))"
proof -
  note conf = getConfiguration_Inr [OF assms]
  have dbg: "truthy (get_prop h r ''debug'') = debug_opt c"
    and ret: "as_number (get_prop h r ''retries'') = or_default (retries_opt c) (Fin 3)"
    and con: "as_number (get_prop h r ''concurrency'') = or_default (concurrency_opt c) (Fin 4)"
    by (simp_all add: get_prop_def conf)
  show ?thesis
  proof (cases "debug_opt c")
    case True
    then have md: "main_debug h r
        = (h @ [censor, deref h r ++ censor], [Dump (deref h r ++ censor)])"
      using main_debug_eq [OF conf(1)] dbg by simp
    show ?thesis
      using True conf(1)
      by (simp add: main_def assms md get_prop_append deref_append ret con catch_def
          split: option.splits prod.splits)
  next
    case False
    then have md: "main_debug h r = (h, [])"
      using main_debug_eq [OF conf(1)] dbg by simp
    show ?thesis
      using False
      by (simp add: main_def assms md ret con catch_def split: option.splits prod.splits)
  qed
qed

subsection \<open>Which actions each part of a run records\<close>

lemma retryBackoff_Inr:
  "source index = Inr v \<Longrightarrow> retryBackoff cfg call source index = ([call], Inr v)"
  by (subst retryBackoff.simps) simp

lemma retryBackoff_Exhausted:
  "source index = Inl e \<Longrightarrow> backoff cfg index = Exhausted
     \<Longrightarrow> retryBackoff cfg call source index = ([call], Inl e)"
  by (subst retryBackoff.simps) simp

lemma retryBackoff_Delay:
  "source index = Inl e \<Longrightarrow> backoff cfg index = Delay d
     \<Longrightarrow> retryBackoff cfg call source index
         = (call # Wait d # fst (retryBackoff cfg call source (Suc index)),
            snd (retryBackoff cfg call source (Suc index)))"
  by (subst retryBackoff.simps) (simp split: prod.splits)

lemma retryBackoff_acts:
  "a \<in> set (fst (retryBackoff cfg call source index)) \<Longrightarrow> a = call \<or> (\<exists>d. a = Wait d)"
proof (induction cfg call source index rule: retryBackoff.induct)
  case (1 cfg call source index)
  show ?case
  proof (cases "source index")
    case (Inr v)
    with "1.prems" show ?thesis by (simp add: retryBackoff_Inr)
  next
    case (Inl e)
    show ?thesis
    proof (cases "backoff cfg index")
      case Exhausted
      with Inl "1.prems" show ?thesis by (simp add: retryBackoff_Exhausted)
    next
      case (Delay d)
      with Inl "1.prems" "1.IH" [OF Inl Delay] show ?thesis
        by (auto simp: retryBackoff_Delay)
    qed
  qed
qed

lemma retryBackoff_first: "\<exists>rest. fst (retryBackoff cfg call source index) = call # rest"
  by (subst retryBackoff.simps) (simp split: sum.splits decision.splits prod.splits)

subsection \<open>Invariants of the pool\<close>

lemma dispatch_invariant:
  assumes "P p" and "\<And>job q. P q \<Longrightarrow> job \<in> set jobs \<Longrightarrow> P (mm_next c job q)"
  shows "\<forall>q \<in> set (dispatch c jobs p). P q"
  using assms
proof (induction jobs arbitrary: p)
  case Nil
  show ?case by simp
next
  case (Cons job jobs)
  have "P (mm_next c job p)" using Cons.prems by simp
  moreover have "\<forall>q \<in> set (dispatch c jobs (mm_next c job p)). P q"
    using Cons.prems by (intro Cons.IH) simp_all
  ultimately show ?case by (simp add: Let_def)
qed

lemma subscribe_invariant:
  assumes "P empty_pool"
    and "\<And>job q. P q \<Longrightarrow> job \<in> set (enumerate 0 tasks) \<Longrightarrow> P (mm_next c job q)"
  shows "P (subscribe c tasks)"
proof -
  have "\<forall>q \<in> set (dispatch c (enumerate 0 tasks) empty_pool). P q"
    using assms by (rule dispatch_invariant)
  then have "\<forall>q \<in> set (empty_pool # dispatch c (enumerate 0 tasks) empty_pool). P q"
    using assms(1) by simp
  then show ?thesis
    unfolding subscribe_def using last_in_set [of "empty_pool # dispatch c (enumerate 0 tasks) empty_pool"]
    by blast
qed

lemma pool_states_invariant:
  assumes "P p"
    and "\<And>choice q. P q \<Longrightarrow> active q \<noteq> [] \<Longrightarrow> P (pool_step cfg c env choice q)"
  shows "\<forall>q \<in> set (pool_states cfg c env sched p). P q"
  using assms
proof (induction cfg c env sched p rule: pool_states.induct)
  case (1 cfg c env sched p)
  show ?case
  proof (cases "active p = []")
    case True
    with "1.prems" show ?thesis by (subst pool_states.simps) simp
  next
    case False
    have "P (pool_step cfg c env (case sched of [] \<Rightarrow> 0 | choice # x \<Rightarrow> choice) p)"
      using "1.prems" False by blast
    then have "\<forall>q \<in> set (pool_states cfg c env (tl sched)
        (pool_step cfg c env (case sched of [] \<Rightarrow> 0 | choice # x \<Rightarrow> choice) p)). P q"
      using False "1.prems"(2) by (intro "1.IH") simp_all
    with "1.prems" False show ?thesis by (subst pool_states.simps) simp
  qed
qed

lemma pool_states_not_Nil: "pool_states cfg c env sched p \<noteq> []"
  by (subst pool_states.simps) simp

lemma pool_states_last_idle: "active (last (pool_states cfg c env sched p)) = []"
proof (induction cfg c env sched p rule: pool_states.induct)
  case (1 cfg c env sched p)
  show ?case
  proof (cases "active p = []")
    case True
    then show ?thesis by (subst pool_states.simps) simp
  next
    case False
    then show ?thesis
      using "1.IH" [OF False] pool_states_not_Nil
      by (subst pool_states.simps) simp
  qed
qed

lemma final_pool_invariant:
  assumes "P (subscribe c tasks)"
    and "\<And>choice q. P q \<Longrightarrow> active q \<noteq> [] \<Longrightarrow> P (pool_step cfg c env choice q)"
  shows "P (final_pool cfg c env sched tasks)"
proof -
  have "\<forall>q \<in> set (pool_states cfg c env sched (subscribe c tasks)). P q"
    using assms by (rule pool_states_invariant)
  then show ?thesis
    unfolding final_pool_def using last_in_set [OF pool_states_not_Nil] by blast
qed

lemma final_pool_idle: "active (final_pool cfg c env sched tasks) = []"
  unfolding final_pool_def by (rule pool_states_last_idle)

lemma mm_next_download_acts:
  "\<forall>a \<in> set (acts p). download_act a \<Longrightarrow> \<forall>a \<in> set (acts (mm_next c job p)). download_act a"
  by (simp add: mm_next_def)

lemma pool_step_download_acts:
  assumes "\<forall>a \<in> set (acts p). download_act a"
  shows "\<forall>a \<in> set (acts (pool_step cfg c env choice p)). download_act a"
  using assms
  by (auto simp: pool_step_def Let_def mm_next_def
      split: slot.splits sum.splits list.splits decision.splits)

lemma final_pool_download_acts:
  "\<forall>a \<in> set (acts (final_pool cfg c env sched tasks)). download_act a"
proof (rule final_pool_invariant)
  show "\<forall>a \<in> set (acts (subscribe c tasks :: ('a, 'b) pool)). download_act a"
    by (rule subscribe_invariant) (simp_all add: empty_pool_def mm_next_download_acts)
next
  fix choice and q :: "('a, 'b) pool"
  assume "\<forall>a \<in> set (acts q). download_act a"
  then show "\<forall>a \<in> set (acts (pool_step cfg c env choice q)). download_act a"
    by (rule pool_step_download_acts)
qed

lemma download_act_not_startup: "download_act a \<Longrightarrow> \<not> startup_act a"
  by (cases a) simp_all

lemma main_report_acts:
  "a \<in> set (fst (main_report env results))
     \<Longrightarrow> a = ReportResults results \<or> a = Close \<or> (\<exists>e. a = ConsoleError e)"
  by (auto simp: main_report_def catch_def split: option.splits)

lemma main_downloads_acts:
  assumes "a \<in> set (fst (main_downloads cfg c env sched tasks))"
  shows "download_act a \<or> (\<exists>rs. a = ReportResults rs) \<or> a = Close \<or> (\<exists>e. a = ConsoleError e)"
proof -
  note d = final_pool_download_acts [of cfg c env sched tasks, rule_format]
  show ?thesis
  proof (cases "settled (final_pool cfg c env sched tasks)")
    case None
    with assms d show ?thesis by (simp add: main_downloads_def Let_def)
  next
    case (Some res)
    show ?thesis
    proof (cases res)
      case (Inl e)
      with Some assms d show ?thesis
        by (auto simp: main_downloads_def Let_def catch_def)
    next
      case (Inr results)
      with Some assms d main_report_acts [of a env results] show ?thesis
        by (auto simp: main_downloads_def Let_def split: prod.splits)
    qed
  qed
qed

lemma main_tasks_acts:
  assumes "a \<in> set (fst (main_tasks cfg c env sched))"
  shows "a = GetDownloadTasks \<or> download_act a \<or> (\<exists>rs. a = ReportResults rs) \<or> a = Close
         \<or> (\<exists>e. a = ConsoleError e)"
proof (cases "retryBackoff cfg GetDownloadTasks (getDownloadTasks env) 0 :: ('a, 'b) action list \<times> _")
  case (Pair as1 res)
  have as1: "a = GetDownloadTasks \<or> download_act a" if "a \<in> set as1" for a
  proof -
    from that Pair have "a \<in> set (fst (retryBackoff cfg GetDownloadTasks (getDownloadTasks env) 0))"
      by simp
    from retryBackoff_acts [OF this] show ?thesis by auto
  qed
  show ?thesis
  proof (cases res)
    case (Inl e)
    with Pair assms as1 show ?thesis by (auto simp: main_tasks_def catch_def)
  next
    case (Inr tasks)
    with Pair assms as1 main_downloads_acts [of a cfg c env sched tasks] show ?thesis
      by (auto simp: main_tasks_def split: prod.splits)
  qed
qed

lemma main_login_acts:
  assumes "a \<in> set (fst (main_login cfg c env sched))"
  shows "a = Login \<or> a = GetDownloadTasks \<or> download_act a \<or> (\<exists>rs. a = ReportResults rs)
         \<or> a = Close \<or> (\<exists>e. a = ConsoleError e)"
proof (cases "retryBackoff cfg Login (login env) 0 :: ('a, 'b) action list \<times> _")
  case (Pair as1 res)
  have as1: "a = Login \<or> download_act a" if "a \<in> set as1" for a
  proof -
    from that Pair have "a \<in> set (fst (retryBackoff cfg Login (login env) 0))"
      by simp
    from retryBackoff_acts [OF this] show ?thesis by auto
  qed
  show ?thesis
  proof (cases res)
    case (Inl e)
    with Pair assms as1 show ?thesis by (auto simp: main_login_def catch_def)
  next
    case (Inr u)
    with Pair assms as1 main_tasks_acts [of a cfg c env sched] show ?thesis
      by (auto simp: main_login_def split: prod.splits)
  qed
qed

lemma main_login_not_startup: "a \<in> set (fst (main_login cfg c env sched)) \<Longrightarrow> \<not> startup_act a"
  using main_login_acts [of a cfg c env sched] by (auto dest: download_act_not_startup)

lemma getConfiguration_accepts:
  assumes "format_opt c = None \<or> format_opt c = Some ''pdf'' \<or> format_opt c = Some ''png''"
    and "positional c = [url]" and "rx_match courseUrlPattern url"
  shows "\<exists>h r. getConfiguration c tu tp [] = (h, Inr r)"
proof -
  from assms(1) obtain opts where opts: "program_opts c = Inr opts"
    by (auto simp: program_opts_def parseFormat_def)
  have cl: "clone [opts] 0 None = ([opts, Map.empty, opts], 2)"
    using clone_None [of 0 "[opts]"] by (simp add: deref_def)
  show ?thesis
    using assms(2,3) by (simp add: getConfiguration_def opts alloc_def cl Let_def)
qed

lemma course_url_X: "rx_match courseUrlPattern ''https://courses.edx.org/courses/X/course/''"
  by (simp add: courseUrlPattern_def line_terminator_def)

subsection \<open>The phases of a run\<close>

lemma main_login_failed:
  "snd (login_phase cfg env) = Inl e
     \<Longrightarrow> main_login cfg c env sched = (fst (login_phase cfg env) @ [ConsoleError e, Close], Exit 1)"
  by (cases "login_phase cfg env") (simp add: main_login_def login_phase_def catch_def)

lemma main_login_done:
  "snd (login_phase cfg env) = Inr u
     \<Longrightarrow> main_login cfg c env sched
         = (fst (login_phase cfg env) @ fst (main_tasks cfg c env sched),
            snd (main_tasks cfg c env sched))"
  by (cases "login_phase cfg env")
    (simp add: main_login_def login_phase_def split: prod.splits)

lemma main_tasks_failed:
  "snd (discovery_phase cfg env) = Inl e
     \<Longrightarrow> main_tasks cfg c env sched
         = (fst (discovery_phase cfg env) @ [ConsoleError e, Close], Exit 1)"
  by (cases "discovery_phase cfg env") (simp add: main_tasks_def discovery_phase_def catch_def)

lemma main_tasks_done:
  "snd (discovery_phase cfg env) = Inr tasks
     \<Longrightarrow> main_tasks cfg c env sched
         = (fst (discovery_phase cfg env) @ fst (main_downloads cfg c env sched tasks),
            snd (main_downloads cfg c env sched tasks))"
  by (cases "discovery_phase cfg env")
    (simp add: main_tasks_def discovery_phase_def split: prod.splits)

lemma main_downloads_pending:
  "settled (final_pool cfg c env sched tasks) = None
     \<Longrightarrow> main_downloads cfg c env sched tasks = (acts (final_pool cfg c env sched tasks), Pending)"
  by (simp add: main_downloads_def Let_def)

lemma main_downloads_failed:
  "settled (final_pool cfg c env sched tasks) = Some (Inl e)
     \<Longrightarrow> main_downloads cfg c env sched tasks
         = (acts (final_pool cfg c env sched tasks) @ [ConsoleError e, Close], Exit 1)"
  by (simp add: main_downloads_def Let_def catch_def)

lemma main_downloads_done:
  "settled (final_pool cfg c env sched tasks) = Some (Inr results)
     \<Longrightarrow> main_downloads cfg c env sched tasks
         = (acts (final_pool cfg c env sched tasks) @ fst (main_report env results),
            snd (main_report env results))"
  by (simp add: main_downloads_def Let_def split: prod.splits)

lemma login_phase_acts: "a \<in> set (fst (login_phase cfg env)) \<Longrightarrow> a = Login \<or> (\<exists>d. a = Wait d)"
  unfolding login_phase_def by (rule retryBackoff_acts)

lemma discovery_phase_acts:
  "a \<in> set (fst (discovery_phase cfg env)) \<Longrightarrow> a = GetDownloadTasks \<or> (\<exists>d. a = Wait d)"
  unfolding discovery_phase_def by (rule retryBackoff_acts)

lemma discovery_phase_first: "\<exists>rest. fst (discovery_phase cfg env) = GetDownloadTasks # rest"
  unfolding discovery_phase_def by (rule retryBackoff_first)

subsection \<open>Retry sequences\<close>

lemma retryBackoff_all_fail:
  assumes "maxRetries cfg = Fin R" and "\<forall>k. int k \<le> R \<longrightarrow> (\<exists>e. source k = Inl e)"
    and "int index \<le> R" and "\<forall>d. call \<noteq> Wait d"
  shows "(\<exists>e. snd (retryBackoff cfg call source index) = Inl e)
       \<and> length (filter (\<lambda>a. a = call) (fst (retryBackoff cfg call source index)))
           = nat R + 1 - index"
  using assms
proof (induction cfg call source index rule: retryBackoff.induct)
  case (1 cfg call source index)
  from "1.prems"(2,3) obtain e where e: "source index = Inl e" by blast
  show ?case
  proof (cases "backoff cfg index")
    case Exhausted
    then have "\<not> int index < R"
      using "1.prems"(1) by (simp add: backoff_def split: if_splits)
    with "1.prems"(3) have "nat R + 1 - index = 1" by linarith
    then show ?thesis
      using retryBackoff_Exhausted [of source index e cfg call] e Exhausted by simp
  next
    case (Delay d)
    then have lt: "int index < R"
      using "1.prems"(1) by (simp add: backoff_def split: if_splits)
    then have "int (Suc index) \<le> R" by simp
    from "1.IH" [OF e Delay "1.prems"(1,2) this "1.prems"(4)]
    have ih: "(\<exists>e. snd (retryBackoff cfg call source (Suc index)) = Inl e)
       \<and> length (filter (\<lambda>a. a = call) (fst (retryBackoff cfg call source (Suc index))))
           = nat R + 1 - Suc index" .
    have "nat R + 1 - index = Suc (nat R + 1 - Suc index)" using lt by linarith
    moreover have "Wait d \<noteq> call" using "1.prems"(4) by metis
    ultimately show ?thesis
      using ih retryBackoff_Delay [of source index e cfg d call] e Delay by simp
  qed
qed

lemma retryBackoff_second:
  assumes "source 0 = Inl e" and "source 1 = Inr v" and "backoff cfg 0 = Delay d"
  shows "retryBackoff cfg call source 0 = ([call, Wait d, call], Inr v)"
proof -
  have "retryBackoff cfg call source (Suc 0) = ([call], Inr v)"
    using assms(2) by (intro retryBackoff_Inr) simp
  then show ?thesis
    using retryBackoff_Delay [of source 0 e cfg d call] assms(1,3) by simp
qed

lemma main_tasks_first: "\<exists>post. fst (main_tasks cfg c env sched) = GetDownloadTasks # post"
proof -
  obtain rest where rest: "fst (discovery_phase cfg env) = GetDownloadTasks # rest"
    using discovery_phase_first by blast
  show ?thesis
  proof (cases "snd (discovery_phase cfg env)")
    case (Inl e)
    then show ?thesis by (simp add: main_tasks_failed rest)
  next
    case (Inr tasks)
    then show ?thesis by (simp add: main_tasks_done rest)
  qed
qed

lemma main_tasks_no_Login: "Login \<notin> set (fst (main_tasks cfg c env sched))"
  using main_tasks_acts [of Login cfg c env sched] by auto

lemma backoffConfig_first_delay: "1 \<le> R \<Longrightarrow> backoff (backoffConfig (Fin R)) 0 = Delay 5000"
  by (simp add: backoff_def backoffConfig_def getDelay_def exponentialBackoffDelay_def)

lemma login_phase_only:
  "PerformDownload t \<notin> set (fst (login_phase cfg env))"
  "ReportResults rs \<notin> set (fst (login_phase cfg env))"
  "GetDownloadTasks \<notin> set (fst (login_phase cfg env))"
  "filter (\<lambda>a. a = GetDownloadTasks) (fst (login_phase cfg env)) = []"
  using login_phase_acts [of _ cfg env] by (auto simp: filter_empty_conv)

lemma discovery_phase_only:
  "PerformDownload t \<notin> set (fst (discovery_phase cfg env))"
  "ReportResults rs \<notin> set (fst (discovery_phase cfg env))"
  "Login \<notin> set (fst (discovery_phase cfg env))"
  using discovery_phase_acts [of _ cfg env] by auto

lemma main_reaches_discovery:
  assumes "getConfiguration c (typed_user env) (typed_password env) [] = (h, Inr r)"
    and "puppeteer_launch env = None"
    and "snd (login_phase (backoffConfig (or_default (retries_opt c) (Fin 3))) env) = Inr u"
  shows "GetDownloadTasks \<in> set (fst (main c env sched))"
proof -
  let ?cfg = "backoffConfig (or_default (retries_opt c) (Fin 3))"
  let ?N = "or_default (concurrency_opt c) (Fin 4)"
  obtain post where "fst (main_tasks ?cfg ?N env sched) = GetDownloadTasks # post"
    using main_tasks_first by blast
  then show ?thesis
    using main_login_done [OF assms(3), of ?N sched]
    by (simp add: main_Inr [OF assms(1)] assms(2))
qed

lemma login_phase_at_once: "login env 0 = Inr u \<Longrightarrow> login_phase cfg env = ([Login], Inr u)"
  unfolding login_phase_def by (rule retryBackoff_Inr)

subsection \<open>The sliding window\<close>

lemma window_empty: "0 \<le> n \<Longrightarrow> window n empty_pool"
  by (simp add: window_def empty_pool_def)

lemma window_mm_next: "window n p \<Longrightarrow> window n (mm_next (Fin n) job p)"
  by (auto simp: window_def mm_next_def)

lemma window_pool_step:
  assumes "window n p" and "active p \<noteq> []" and "1 \<le> n"
  shows "window n (pool_step cfg (Fin n) env choice p)"
proof -
  let ?i = "choice mod length (active p)"
  have i: "?i < length (active p)" using assms(2) by simp
  then have len: "length (take ?i (active p) @ drop (Suc ?i) (active p)) = length (active p) - 1"
    by simp
  show ?thesis
  proof (cases "active p ! ?i")
    case (Sleeping pos t k)
    with assms(1) show ?thesis by (simp add: pool_step_def Let_def window_def)
  next
    case (Running pos t k)
    show ?thesis
    proof (cases "performDownload env pos t k")
      case (Inl e)
      with Running assms(1,3) show ?thesis
        by (cases "backoff cfg k") (simp_all add: pool_step_def Let_def window_def)
    next
      case (Inr res)
      show ?thesis
      proof (cases "buffer p")
        case Nil
        with Running Inr assms(1) i show ?thesis
          by (simp add: pool_step_def Let_def window_def)
      next
        case (Cons job rest)
        with assms(1) have full: "int (length (active p)) = n" by (simp add: window_def)
        with Running Inr Cons i assms(3) show ?thesis
          by (simp add: pool_step_def Let_def window_def mm_next_def)
      qed
    qed
  qed
qed

lemma window_dispatch:
  assumes "0 \<le> n"
  shows "\<forall>q \<in> set (dispatch (Fin n) jobs (empty_pool :: ('t, 'r) pool)). window n q"
  by (rule dispatch_invariant) (simp_all add: window_empty assms window_mm_next)

lemma window_subscribe: "0 \<le> n \<Longrightarrow> window n (subscribe (Fin n) tasks)"
  by (rule subscribe_invariant) (simp_all add: window_empty window_mm_next)

lemma window_pool_states:
  assumes "1 \<le> n"
  shows "\<forall>q \<in> set (pool_states cfg (Fin n) env sched (subscribe (Fin n) tasks)). window n q"
proof (rule pool_states_invariant)
  show "window n (subscribe (Fin n) tasks)" using assms by (intro window_subscribe) simp
next
  fix choice and q :: "('a, 'b) pool"
  assume "window n q" and "active q \<noteq> []"
  then show "window n (pool_step cfg (Fin n) env choice q)"
    using assms by (rule window_pool_step)
qed

lemma pool_states_first: "\<exists>rest. pool_states cfg c env sched p = p # rest"
  by (subst pool_states.simps) simp

subsection \<open>Downloads that succeed within the retry budget\<close>

lemma backoff_within_budget: "k < budget (maxRetries cfg) \<Longrightarrow> \<exists>d. backoff cfg k = Delay d"
  by (cases "maxRetries cfg") (auto simp: backoff_def)

lemma succeeds_from_next:
  assumes "succeeds_from cfg env pos t k" and "performDownload env pos t k = Inl e"
  shows "succeeds_from cfg env pos t (Suc k) \<and> k < budget (maxRetries cfg)"
proof -
  from assms(1) obtain k' res where k': "k \<le> k'" "k' \<le> budget (maxRetries cfg)"
    "performDownload env pos t k' = Inr res"
    unfolding succeeds_from_def by blast
  with assms(2) have "k \<noteq> k'" by auto
  with k' show ?thesis unfolding succeeds_from_def by (auto intro!: exI [of _ k'])
qed

lemma thriving_mm_next:
  assumes "thriving cfg env p" and "succeeds_from cfg env (fst job) (snd job) 0"
  shows "thriving cfg env (mm_next c job p)"
  using assms by (simp add: thriving_def mm_next_def)

lemma population_mm_next: "population (mm_next c job p) = Suc (population p)"
  by (simp add: population_def mm_next_def)

lemma list_all_remove_nth: "list_all P xs \<Longrightarrow> list_all P (take i xs @ drop (Suc i) xs)"
  by (auto simp: list_all_iff dest: in_set_takeD in_set_dropD)

lemma list_all_update: "list_all P xs \<Longrightarrow> P y \<Longrightarrow> list_all P (xs[i := y])"
  by (auto simp: list_all_iff dest!: subsetD [OF set_update_subset_insert])

lemma thriving_pool_step:
  assumes "thriving cfg env p" and "active p \<noteq> []"
  shows "thriving cfg env (pool_step cfg c env choice p)
       \<and> population (pool_step cfg c env choice p) = population p"
proof -
  let ?i = "choice mod length (active p)"
  have i: "?i < length (active p)" using assms(2) by simp
  have all: "list_all (slot_succeeds cfg env) (active p)" using assms(1) by (simp add: thriving_def)
  then have slot: "slot_succeeds cfg env (active p ! ?i)" using i by (simp add: list_all_length)
  show ?thesis
  proof (cases "active p ! ?i")
    case (Sleeping pos t k)
    with slot have "slot_succeeds cfg env (Running pos t k)" by simp
    with all have "list_all (slot_succeeds cfg env) ((active p)[?i := Running pos t k])"
      by (rule list_all_update)
    with Sleeping assms(1) show ?thesis
      by (simp add: pool_step_def Let_def thriving_def population_def)
  next
    case (Running pos t k)
    show ?thesis
    proof (cases "performDownload env pos t k")
      case (Inl e)
      from slot Running have "succeeds_from cfg env pos t k" by simp
      from succeeds_from_next [OF this Inl]
      have nxt: "slot_succeeds cfg env (Sleeping pos t (Suc k))" and "k < budget (maxRetries cfg)"
        by simp_all
      then obtain d where d: "backoff cfg k = Delay d" using backoff_within_budget by blast
      from all nxt have "list_all (slot_succeeds cfg env) ((active p)[?i := Sleeping pos t (Suc k)])"
        by (rule list_all_update)
      with Running Inl d assms(1) show ?thesis
        by (simp add: pool_step_def Let_def thriving_def population_def)
    next
      case (Inr res)
      let ?p1 = "p\<lparr>active := take ?i (active p) @ drop (Suc ?i) (active p),
                    collected := collected p @ [res]\<rparr>"
      have rem: "list_all (slot_succeeds cfg env) (take ?i (active p) @ drop (Suc ?i) (active p))"
        using all by (rule list_all_remove_nth)
      have len: "length (take ?i (active p)) + length (drop (Suc ?i) (active p)) + 1
          = length (active p)" using i by simp
      show ?thesis
      proof (cases "buffer p")
        case Nil
        with Running Inr assms(1) rem len show ?thesis
          by (simp add: pool_step_def Let_def thriving_def population_def)
      next
        case (Cons job rest)
        have p1: "thriving cfg env (?p1\<lparr>buffer := rest\<rparr>)"
          using assms(1) rem Cons by (simp add: thriving_def)
        have job: "succeeds_from cfg env (fst job) (snd job) 0"
          using assms(1) Cons by (simp add: thriving_def)
        have "thriving cfg env (mm_next c job (?p1\<lparr>buffer := rest\<rparr>))"
          using p1 job by (rule thriving_mm_next)
        moreover have "population (mm_next c job (?p1\<lparr>buffer := rest\<rparr>)) = population p"
          using len Cons by (simp add: population_mm_next) (simp add: population_def)
        ultimately show ?thesis
          using Running Inr Cons by (simp add: pool_step_def Let_def)
      qed
    qed
  qed
qed

lemma last_dispatch_Cons:
  "last (p # dispatch c (job # jobs) p) = last (mm_next c job p # dispatch c jobs (mm_next c job p))"
  by (simp add: Let_def)

lemma population_dispatch:
  "population (last (p # dispatch c jobs p)) = population p + length jobs"
proof (induction jobs arbitrary: p)
  case Nil
  show ?case by simp
next
  case (Cons job jobs)
  show ?case
    unfolding last_dispatch_Cons Cons.IH by (simp add: population_mm_next)
qed

lemma population_subscribe: "population (subscribe c tasks) = length tasks"
proof -
  have "population (empty_pool :: ('a, 'b) pool) = 0"
    by (simp add: population_def empty_pool_def)
  then show ?thesis
    unfolding subscribe_def population_dispatch by simp
qed

lemma thriving_subscribe:
  assumes "\<forall>job \<in> set (enumerate 0 tasks). succeeds_from cfg env (fst job) (snd job) 0"
  shows "thriving cfg env (subscribe c tasks)"
proof (rule subscribe_invariant)
  show "thriving cfg env empty_pool" by (simp add: thriving_def empty_pool_def)
next
  fix job and q :: "('a, 'b) pool"
  assume "thriving cfg env q" and "job \<in> set (enumerate 0 tasks)"
  then show "thriving cfg env (mm_next c job q)"
    using assms by (intro thriving_mm_next) simp_all
qed

lemma thriving_final:
  assumes "\<forall>job \<in> set (enumerate 0 tasks). succeeds_from cfg env (fst job) (snd job) 0"
  shows "thriving cfg env (final_pool cfg c env sched tasks)
       \<and> population (final_pool cfg c env sched tasks) = length tasks"
proof (rule final_pool_invariant)
  show "thriving cfg env (subscribe c tasks) \<and> population (subscribe c tasks) = length tasks"
    using assms by (simp add: thriving_subscribe population_subscribe)
next
  fix choice and q :: "('a, 'b) pool"
  assume "thriving cfg env q \<and> population q = length tasks" and "active q \<noteq> []"
  then show "thriving cfg env (pool_step cfg c env choice q)
      \<and> population (pool_step cfg c env choice q) = length tasks"
    using thriving_pool_step [of cfg env q c choice] by simp
qed

lemma window_final:
  assumes "1 \<le> n"
  shows "window n (final_pool cfg (Fin n) env sched tasks)"
proof (rule final_pool_invariant)
  show "window n (subscribe (Fin n) tasks)" using assms by (intro window_subscribe) simp
next
  fix choice and q :: "('a, 'b) pool"
  assume "window n q" and "active q \<noteq> []"
  then show "window n (pool_step cfg (Fin n) env choice q)"
    using assms by (rule window_pool_step)
qed

lemma final_pool_drained:
  assumes "1 \<le> n"
  shows "buffer (final_pool cfg (Fin n) env sched tasks) = []"
  using window_final [OF assms, of cfg env sched tasks] final_pool_idle [of cfg "Fin n" env sched tasks]
    assms
  by (simp add: window_def)

subsection \<open>A download that fails on every call\<close>

lemma pending_mm_next: "pending_or_failed job p \<Longrightarrow> pending_or_failed job (mm_next c job' p)"
  by (auto simp: pending_or_failed_def mm_next_def)

lemma pending_mm_next_self: "pending_or_failed job (mm_next c job p)"
  by (cases job) (auto simp: pending_or_failed_def mm_next_def)

lemma pending_dispatch:
  "job \<in> set jobs \<or> pending_or_failed job p
     \<Longrightarrow> pending_or_failed job (last (p # dispatch c jobs p))"
proof (induction jobs arbitrary: p)
  case Nil
  then show ?case by simp
next
  case (Cons j jobs)
  have "job \<in> set jobs \<or> pending_or_failed job (mm_next c j p)"
    using Cons.prems pending_mm_next [of job p c j] pending_mm_next_self [of job c p] by auto
  from Cons.IH [OF this] show ?case unfolding last_dispatch_Cons .
qed

lemma pending_subscribe:
  "job \<in> set (enumerate 0 tasks) \<Longrightarrow> pending_or_failed job (subscribe c tasks)"
  unfolding subscribe_def by (rule pending_dispatch) simp

lemma slot_job_update:
  assumes "job \<in> slot_job ` set xs" and "i < length xs" and "slot_job y = slot_job (xs ! i)"
  shows "job \<in> slot_job ` set (xs[i := y])"
proof -
  have "map slot_job (xs[i := y]) = map slot_job xs"
    using assms(2,3) by (simp add: map_update list_update_same_conv)
  then have "set (map slot_job (xs[i := y])) = set (map slot_job xs)"
    by (rule arg_cong)
  then have "slot_job ` set (xs[i := y]) = slot_job ` set xs"
    by (simp only: set_map)
  with assms(1) show ?thesis by simp
qed

lemma slot_job_remove:
  assumes "job \<in> slot_job ` set xs" and "i < length xs" and "slot_job (xs ! i) \<noteq> job"
  shows "job \<in> slot_job ` set (take i xs @ drop (Suc i) xs)"
proof -
  from assms(1) obtain s where s: "s \<in> set xs" "slot_job s = job" by auto
  have d: "drop i xs = xs ! i # drop (Suc i) xs"
    using assms(2) by (rule Cons_nth_drop_Suc [symmetric])
  have "set (take i xs) \<union> set (drop i xs) = set xs"
    using set_append [of "take i xs" "drop i xs"] by simp
  then have "set xs = set (take i xs) \<union> insert (xs ! i) (set (drop (Suc i) xs))"
    unfolding d by simp
  moreover have "s \<noteq> xs ! i" using s(2) assms(3) by auto
  ultimately have "s \<in> set (take i xs @ drop (Suc i) xs)" using s(1) by auto
  with s(2) show ?thesis by blast
qed

lemma in_budget_mm_next: "in_budget cfg p \<Longrightarrow> in_budget cfg (mm_next c job p)"
  by (simp add: in_budget_def mm_next_def)

lemma in_budget_pool_step:
  assumes "in_budget cfg p" and "active p \<noteq> []"
  shows "in_budget cfg (pool_step cfg c env choice p)"
proof -
  let ?i = "choice mod length (active p)"
  let ?ok = "\<lambda>s. slot_index s \<le> budget (maxRetries cfg)"
  have i: "?i < length (active p)" using assms(2) by simp
  have all: "list_all ?ok (active p)" using assms(1) by (simp add: in_budget_def)
  then have slot: "?ok (active p ! ?i)" using i by (simp add: list_all_length)
  show ?thesis
  proof (cases "active p ! ?i")
    case (Sleeping pos t k)
    with slot have "?ok (Running pos t k)" by simp
    with all have "list_all ?ok ((active p)[?i := Running pos t k])" by (rule list_all_update)
    with Sleeping show ?thesis by (simp add: pool_step_def Let_def in_budget_def)
  next
    case (Running pos t k)
    show ?thesis
    proof (cases "performDownload env pos t k")
      case (Inl e)
      show ?thesis
      proof (cases "backoff cfg k")
        case Exhausted
        with Running Inl show ?thesis by (simp add: pool_step_def Let_def in_budget_def)
      next
        case (Delay d)
        then have "k < budget (maxRetries cfg)" by (rule backoff_Delay_budget)
        then have "?ok (Sleeping pos t (Suc k))" by simp
        with all have "list_all ?ok ((active p)[?i := Sleeping pos t (Suc k)])"
          by (rule list_all_update)
        with Running Inl Delay show ?thesis by (simp add: pool_step_def Let_def in_budget_def)
      qed
    next
      case (Inr res)
      have rem: "list_all ?ok (take ?i (active p) @ drop (Suc ?i) (active p))"
        using all by (rule list_all_remove_nth)
      show ?thesis
      proof (cases "buffer p")
        case Nil
        with Running Inr rem show ?thesis by (simp add: pool_step_def Let_def in_budget_def)
      next
        case (Cons job rest)
        with Running Inr rem show ?thesis
          by (simp add: pool_step_def Let_def in_budget_def mm_next_def)
      qed
    qed
  qed
qed

lemma pending_pool_step:
  assumes "pending_or_failed (pos, t) p" and "active p \<noteq> []" and "in_budget cfg p"
    and doomed: "\<forall>k \<le> budget (maxRetries cfg). \<exists>e. performDownload env pos t k = Inl e"
  shows "pending_or_failed (pos, t) (pool_step cfg c env choice p)"
proof (cases "failure p \<noteq> None \<or> (pos, t) \<in> set (buffer p) \<or> (pos, t) \<in> slot_job ` set (active p)")
  case False
  with assms(1) show ?thesis by (simp add: pending_or_failed_def)
next
  case True
  let ?i = "choice mod length (active p)"
  have i: "?i < length (active p)" using assms(2) by simp
  have slot: "slot_index (active p ! ?i) \<le> budget (maxRetries cfg)"
    using assms(3) i by (simp add: in_budget_def list_all_length)
  show ?thesis
  proof (cases "active p ! ?i")
    case (Sleeping pos' t' k)
    have "(pos, t) \<in> slot_job ` set ((active p)[?i := Running pos' t' k])"
      if "(pos, t) \<in> slot_job ` set (active p)"
      using that i by (rule slot_job_update) (simp add: Sleeping)
    with True Sleeping show ?thesis
      by (auto simp: pool_step_def Let_def pending_or_failed_def)
  next
    case (Running pos' t' k)
    show ?thesis
    proof (cases "performDownload env pos' t' k")
      case (Inl e)
      show ?thesis
      proof (cases "backoff cfg k")
        case Exhausted
        with Running Inl show ?thesis
          by (simp add: pool_step_def Let_def pending_or_failed_def)
      next
        case (Delay d)
        have "(pos, t) \<in> slot_job ` set ((active p)[?i := Sleeping pos' t' (Suc k)])"
          if "(pos, t) \<in> slot_job ` set (active p)"
          using that i by (rule slot_job_update) (simp add: Running)
        with True Running Inl Delay show ?thesis
          by (auto simp: pool_step_def Let_def pending_or_failed_def)
      qed
    next
      case (Inr res)
      from slot Running have "k \<le> budget (maxRetries cfg)" by simp
      with doomed obtain e where "performDownload env pos t k = Inl e" by blast
      with Inr have "(pos', t') \<noteq> (pos, t)" by auto
      then have other: "slot_job (active p ! ?i) \<noteq> (pos, t)" by (simp add: Running)
      let ?p1 = "p\<lparr>active := take ?i (active p) @ drop (Suc ?i) (active p),
                    collected := collected p @ [res]\<rparr>"
      have kept: "(pos, t) \<in> slot_job ` set (take ?i (active p) @ drop (Suc ?i) (active p))"
        if "(pos, t) \<in> slot_job ` set (active p)"
        using that i other by (rule slot_job_remove)
      show ?thesis
      proof (cases "buffer p")
        case Nil
        with True kept Running Inr show ?thesis
          by (auto simp: pool_step_def Let_def pending_or_failed_def)
      next
        case (Cons job rest)
        have "pending_or_failed (pos, t) (mm_next c job (?p1\<lparr>buffer := rest\<rparr>))"
        proof (cases "job = (pos, t)")
          case True
          then show ?thesis by (simp add: pending_mm_next_self)
        next
          case False
          with \<open>failure p \<noteq> None \<or> (pos, t) \<in> set (buffer p) \<or> (pos, t) \<in> slot_job ` set (active p)\<close>
            kept Cons
          have "pending_or_failed (pos, t) (?p1\<lparr>buffer := rest\<rparr>)"
            by (auto simp: pending_or_failed_def)
          then show ?thesis by (rule pending_mm_next)
        qed
        with Running Inr Cons show ?thesis by (simp add: pool_step_def Let_def)
      qed
    qed
  qed
qed

lemma pending_final:
  assumes "(pos, t) \<in> set (enumerate 0 tasks)"
    and "\<forall>k \<le> budget (maxRetries cfg). \<exists>e. performDownload env pos t k = Inl e"
  shows "pending_or_failed (pos, t) (final_pool cfg c env sched tasks)"
proof -
  have "pending_or_failed (pos, t) (final_pool cfg c env sched tasks)
      \<and> in_budget cfg (final_pool cfg c env sched tasks)"
  proof (rule final_pool_invariant)
    show "pending_or_failed (pos, t) (subscribe c tasks :: ('a, 'b) pool)
        \<and> in_budget cfg (subscribe c tasks :: ('a, 'b) pool)"
    proof
      show "pending_or_failed (pos, t) (subscribe c tasks :: ('a, 'b) pool)"
        using assms(1) by (rule pending_subscribe)
      show "in_budget cfg (subscribe c tasks :: ('a, 'b) pool)"
        by (rule subscribe_invariant) (simp_all add: in_budget_def empty_pool_def mm_next_def)
    qed
  next
    fix choice and q :: "('a, 'b) pool"
    assume "pending_or_failed (pos, t) q \<and> in_budget cfg q" and "active q \<noteq> []"
    then show "pending_or_failed (pos, t) (pool_step cfg c env choice q)
        \<and> in_budget cfg (pool_step cfg c env choice q)"
      using assms(2) by (simp add: pending_pool_step in_budget_pool_step)
  qed
  then show ?thesis by simp
qed

text \<open>What the download phase comes to, for a limit of at least 1.\<close>

lemma downloads_all_succeed:
  assumes "1 \<le> n"
    and "\<forall>pos < length tasks. \<exists>k \<le> budget (maxRetries cfg).
           \<exists>res. performDownload env pos (tasks ! pos) k = Inr res"
  shows "\<exists>results. settled (final_pool cfg (Fin n) env sched tasks) = Some (Inr results)
           \<and> length results = length tasks"
proof -
  let ?p = "final_pool cfg (Fin n) env sched tasks"
  have "\<forall>job \<in> set (enumerate 0 tasks). succeeds_from cfg env (fst job) (snd job) 0"
    using assms(2) by (auto simp: in_set_enumerate_eq succeeds_from_def)
  then have th: "thriving cfg env ?p" and pop: "population ?p = length tasks"
    using thriving_final [of tasks cfg env "Fin n" sched] by simp_all
  have idle: "active ?p = []" by (rule final_pool_idle)
  have drained: "buffer ?p = []" using assms(1) by (rule final_pool_drained)
  have "failure ?p = None" using th by (simp add: thriving_def)
  then have "settled ?p = Some (Inr (collected ?p))" using drained by (simp add: settled_def)
  moreover have "length (collected ?p) = length tasks"
    using pop idle drained by (simp add: population_def)
  ultimately show ?thesis by blast
qed

lemma downloads_one_exhausted:
  assumes "1 \<le> n" and "pos < length tasks"
    and "\<forall>k \<le> budget (maxRetries cfg). \<exists>e. performDownload env pos (tasks ! pos) k = Inl e"
  shows "\<exists>e. settled (final_pool cfg (Fin n) env sched tasks) = Some (Inl e)"
proof -
  let ?p = "final_pool cfg (Fin n) env sched tasks"
  have "(pos, tasks ! pos) \<in> set (enumerate 0 tasks)"
    using assms(2) by (simp add: in_set_enumerate_eq)
  then have "pending_or_failed (pos, tasks ! pos) ?p"
    using assms(3) by (rule pending_final)
  moreover have "active ?p = []" by (rule final_pool_idle)
  moreover have "buffer ?p = []" using assms(1) by (rule final_pool_drained)
  ultimately have "failure ?p \<noteq> None" by (simp add: pending_or_failed_def)
  then show ?thesis by (auto simp: settled_def)
qed

subsection \<open>Where the report stands in a run\<close>

lemma report_then_shutdown_prepend:
  assumes "list_all (\<lambda>a. \<not> report_act a) xs" and "report_then_shutdown as"
  shows "report_then_shutdown (xs @ as)"
proof (cases "list_all (\<lambda>a. \<not> report_act a) as")
  case True
  with assms(1) show ?thesis by (simp add: report_then_shutdown_def)
next
  case False
  with assms(2) obtain pre rs post where as: "as = pre @ ReportResults rs # post"
    and pre: "list_all (\<lambda>a. \<not> report_act a) pre" and post: "list_all shutdown_act post"
    unfolding report_then_shutdown_def by blast
  have "xs @ as = (xs @ pre) @ ReportResults rs # post" by (simp add: as)
  moreover have "list_all (\<lambda>a. \<not> report_act a) (xs @ pre)" using assms(1) pre by simp
  ultimately show ?thesis unfolding report_then_shutdown_def using post by blast
qed

lemma download_act_not_report: "download_act a \<Longrightarrow> \<not> report_act a"
  by (cases a) simp_all

lemma main_report_shape:
  "\<exists>post. fst (main_report env results) = ReportResults results # post \<and> list_all shutdown_act post"
  by (simp add: main_report_def catch_def split: option.splits)

lemma final_pool_no_report:
  "list_all (\<lambda>a. \<not> report_act a) (acts (final_pool cfg c env sched tasks))"
  using final_pool_download_acts [of cfg c env sched tasks]
  by (auto simp: list_all_iff dest: download_act_not_report)

lemma main_downloads_report:
  "report_then_shutdown (fst (main_downloads cfg c env sched tasks))"
proof (cases "settled (final_pool cfg c env sched tasks)")
  case None
  then show ?thesis
    using final_pool_no_report [of cfg c env sched tasks]
    by (simp add: main_downloads_pending report_then_shutdown_def)
next
  case (Some res)
  show ?thesis
  proof (cases res)
    case (Inl e)
    with Some have "settled (final_pool cfg c env sched tasks) = Some (Inl e)" by simp
    then show ?thesis
      using final_pool_no_report [of cfg c env sched tasks]
      by (simp add: main_downloads_failed report_then_shutdown_def)
  next
    case (Inr results)
    with Some have s: "settled (final_pool cfg c env sched tasks) = Some (Inr results)" by simp
    obtain post where "fst (main_report env results) = ReportResults results # post"
      and "list_all shutdown_act post"
      using main_report_shape by blast
    then have "fst (main_report env results) = [] @ ReportResults results # post
        \<and> list_all (\<lambda>a. \<not> report_act a) ([] :: ('a, 'b) action list) \<and> list_all shutdown_act post"
      by simp
    then have "report_then_shutdown (fst (main_report env results))"
      unfolding report_then_shutdown_def by blast
    then show ?thesis
      unfolding main_downloads_done [OF s] fst_conv
      using final_pool_no_report by (rule report_then_shutdown_prepend [rotated])
  qed
qed

lemma discovery_phase_no_report: "list_all (\<lambda>a. \<not> report_act a) (fst (discovery_phase cfg env))"
  unfolding list_all_iff
proof
  fix a :: "('a, 'b) action"
  assume "a \<in> set (fst (discovery_phase cfg env))"
  then have "a = GetDownloadTasks \<or> (\<exists>d. a = Wait d)" by (rule discovery_phase_acts)
  then show "\<not> report_act a" by auto
qed

lemma login_phase_no_report: "list_all (\<lambda>a. \<not> report_act a) (fst (login_phase cfg env))"
  unfolding list_all_iff
proof
  fix a :: "('a, 'b) action"
  assume "a \<in> set (fst (login_phase cfg env))"
  then have "a = Login \<or> (\<exists>d. a = Wait d)" by (rule login_phase_acts)
  then show "\<not> report_act a" by auto
qed

lemma main_tasks_report: "report_then_shutdown (fst (main_tasks cfg c env sched))"
proof (cases "snd (discovery_phase cfg env)")
  case (Inl e)
  then show ?thesis
    using discovery_phase_no_report [of cfg env]
    by (simp add: main_tasks_failed report_then_shutdown_def)
next
  case (Inr tasks)
  show ?thesis
    unfolding main_tasks_done [OF Inr] fst_conv
    using discovery_phase_no_report main_downloads_report by (rule report_then_shutdown_prepend)
qed

lemma main_login_report: "report_then_shutdown (fst (main_login cfg c env sched))"
proof (cases "snd (login_phase cfg env)")
  case (Inl e)
  then show ?thesis
    using login_phase_no_report [of cfg env]
    by (simp add: main_login_failed report_then_shutdown_def)
next
  case (Inr u)
  show ?thesis
    unfolding main_login_done [OF Inr] fst_conv
    using login_phase_no_report main_tasks_report by (rule report_then_shutdown_prepend)
qed

lemma main_report_then_shutdown: "report_then_shutdown (fst (main c env sched))"
proof (cases "getConfiguration c (typed_user env) (typed_password env) []")
  case (Pair h res)
  show ?thesis
  proof (cases res)
    case (Inl code)
    with Pair show ?thesis by (simp add: main_def report_then_shutdown_def)
  next
    case (Inr r)
    with Pair have conf: "getConfiguration c (typed_user env) (typed_password env) [] = (h, Inr r)"
      by simp
    let ?dump = "(if debug_opt c then [Dump (deref h r ++ censor)] else []) :: ('a, 'b) action list"
    show ?thesis
    proof (cases "puppeteer_launch env")
      case (Some e)
      then show ?thesis by (simp add: main_Inr [OF conf] report_then_shutdown_def)
    next
      case None
      define pre :: "('a, 'b) action list"
        where "pre = ?dump @ [Launch, NewDownloader (deref h r)]"
      define rest where "rest = fst (main_login (backoffConfig (or_default (retries_opt c) (Fin 3)))
                     (or_default (concurrency_opt c) (Fin 4)) env sched)"
      have eq: "fst (main c env sched) = pre @ rest"
        by (simp add: main_Inr [OF conf] None pre_def rest_def)
      have "list_all (\<lambda>a. \<not> report_act a) pre" by (simp add: pre_def)
      moreover have "report_then_shutdown rest" unfolding rest_def by (rule main_login_report)
      ultimately have "report_then_shutdown (pre @ rest)" by (rule report_then_shutdown_prepend)
      then show ?thesis by (simp only: eq)
    qed
  qed
qed

lemma no_report_iff: "list_all (\<lambda>a. \<not> report_act a) xs \<longleftrightarrow> (\<forall>rs. ReportResults rs \<notin> set xs)"
proof
  assume "list_all (\<lambda>a. \<not> report_act a) xs"
  then show "\<forall>rs. ReportResults rs \<notin> set xs" by (auto simp: list_all_iff)
next
  assume r: "\<forall>rs. ReportResults rs \<notin> set xs"
  show "list_all (\<lambda>a. \<not> report_act a) xs"
    unfolding list_all_iff
  proof
    fix a assume "a \<in> set xs"
    with r show "\<not> report_act a" by (cases a) auto
  qed
qed

lemma shutdown_act_iff: "shutdown_act a \<longleftrightarrow> a = Close \<or> (\<exists>e. a = ConsoleError e)"
  by (cases a) simp_all

subsection \<open>A concurrency limit below 1\<close>

lemma getConfiguration_Inr_conditions:
  assumes "getConfiguration c tu tp [] = (h, Inr r)"
  shows "(format_opt c = None \<or> format_opt c = Some ''pdf'' \<or> format_opt c = Some ''png'')
       \<and> (\<exists>url. positional c = [url] \<and> rx_match courseUrlPattern url)"
proof -
  from assms obtain opts where opts: "program_opts c = Inr opts"
    by (auto simp: getConfiguration_def split: sum.splits)
  then have "format_opt c = None \<or> format_opt c = Some ''pdf'' \<or> format_opt c = Some ''png''"
    by (auto simp: program_opts_def parseFormat_def split: option.splits if_splits)
  moreover from assms opts obtain url where url: "positional c = [url]"
    by (auto simp: getConfiguration_def split: list.splits)
  moreover from assms opts url have "rx_match courseUrlPattern url"
    by (auto simp: getConfiguration_def split: if_splits)
  ultimately show ?thesis by blast
qed

lemma idle_mm_next:
  assumes "n \<le> 0" and "active p = [] \<and> acts p = []"
  shows "active (mm_next (Fin n) job p) = [] \<and> acts (mm_next (Fin n) job p) = []"
  using assms by (simp add: mm_next_def)

lemma idle_subscribe:
  assumes "n \<le> 0"
  shows "active (subscribe (Fin n) tasks :: ('t, 'r) pool) = []
       \<and> acts (subscribe (Fin n) tasks :: ('t, 'r) pool) = []"
  by (rule subscribe_invariant) (simp_all add: empty_pool_def idle_mm_next [OF assms])

lemma idle_final_pool:
  fixes env :: "('t, 'r) environment"
  assumes "n \<le> 0"
  shows "acts (final_pool cfg (Fin n) env sched tasks) = []"
proof -
  have idle: "active (subscribe (Fin n) tasks :: ('t, 'r) pool) = []
       \<and> acts (subscribe (Fin n) tasks :: ('t, 'r) pool) = []"
    using assms by (rule idle_subscribe)
  then have "pool_states cfg (Fin n) env sched (subscribe (Fin n) tasks)
      = [subscribe (Fin n) tasks]"
    by (subst pool_states.simps) simp
  then show ?thesis
    using idle by (simp add: final_pool_def)
qed

lemma login_phase_first: "\<exists>rest. fst (login_phase cfg env) = Login # rest"
  unfolding login_phase_def by (rule retryBackoff_first)

lemma main_login_first: "\<exists>rest. fst (main_login cfg c env sched) = Login # rest"
proof -
  obtain rest where rest: "fst (login_phase cfg env) = Login # rest"
    using login_phase_first by blast
  show ?thesis
  proof (cases "snd (login_phase cfg env)")
    case (Inl e)
    then show ?thesis by (simp add: main_login_failed rest)
  next
    case (Inr u)
    then show ?thesis by (simp add: main_login_done rest)
  qed
qed

subsection \<open>How a run ends\<close>

lemma ends_closed_prepend:
  assumes "ends_closed (as, ending)" and "\<forall>e. ConsoleError e \<notin> set xs"
  shows "ends_closed (xs @ as, ending)"
  using assms by (auto simp: ends_closed_def)

lemma ends_closed_failure:
  assumes "\<forall>e. ConsoleError e \<notin> set xs"
  shows "ends_closed (xs @ [ConsoleError e, Close], Exit 1)"
  by (simp add: ends_closed_def)

lemma main_report_ends: "ends_closed (main_report env results)"
  by (simp add: ends_closed_def main_report_def catch_def split: option.splits)

lemma download_act_not_error: "download_act a \<Longrightarrow> a \<noteq> ConsoleError e"
  by (cases a) simp_all

lemma final_pool_no_error: "\<forall>e. ConsoleError e \<notin> set (acts (final_pool cfg c env sched tasks))"
  using final_pool_download_acts [of cfg c env sched tasks]
  by (auto dest: download_act_not_error)

lemma main_downloads_ends: "ends_closed (main_downloads cfg c env sched tasks)"
proof (cases "settled (final_pool cfg c env sched tasks)")
  case None
  then show ?thesis
    using final_pool_no_error [of cfg c env sched tasks]
    by (simp add: main_downloads_pending ends_closed_def)
next
  case (Some res)
  show ?thesis
  proof (cases res)
    case (Inl e)
    with Some have f: "settled (final_pool cfg c env sched tasks) = Some (Inl e)" by simp
    show ?thesis
      unfolding main_downloads_failed [OF f]
      using final_pool_no_error by (rule ends_closed_failure)
  next
    case (Inr results)
    with Some have s: "settled (final_pool cfg c env sched tasks) = Some (Inr results)" by simp
    have "ends_closed (fst (main_report env results), snd (main_report env results))"
      using main_report_ends [of env results] by simp
    then show ?thesis
      unfolding main_downloads_done [OF s]
      using final_pool_no_error by (rule ends_closed_prepend)
  qed
qed

lemma discovery_phase_no_error: "\<forall>e. ConsoleError e \<notin> set (fst (discovery_phase cfg env))"
  using discovery_phase_acts [of _ cfg env] by blast

lemma login_phase_no_error: "\<forall>e. ConsoleError e \<notin> set (fst (login_phase cfg env))"
  using login_phase_acts [of _ cfg env] by blast

lemma main_tasks_ends: "ends_closed (main_tasks cfg c env sched)"
proof (cases "snd (discovery_phase cfg env)")
  case (Inl e)
  show ?thesis
    unfolding main_tasks_failed [OF Inl]
    using discovery_phase_no_error by (rule ends_closed_failure)
next
  case (Inr tasks)
  have "ends_closed (fst (main_downloads cfg c env sched tasks), snd (main_downloads cfg c env sched tasks))"
    using main_downloads_ends [of cfg c env sched tasks] by simp
  then show ?thesis
    unfolding main_tasks_done [OF Inr]
    using discovery_phase_no_error by (rule ends_closed_prepend)
qed

lemma main_login_ends: "ends_closed (main_login cfg c env sched)"
proof (cases "snd (login_phase cfg env)")
  case (Inl e)
  show ?thesis
    unfolding main_login_failed [OF Inl]
    using login_phase_no_error by (rule ends_closed_failure)
next
  case (Inr u)
  have "ends_closed (fst (main_tasks cfg c env sched), snd (main_tasks cfg c env sched))"
    using main_tasks_ends [of cfg c env sched] by simp
  then show ?thesis
    unfolding main_login_done [OF Inr]
    using login_phase_no_error by (rule ends_closed_prepend)
qed

subsection \<open>The order of the phases\<close>

lemma phases_append: "phases (xs @ ys) = phases xs @ phases ys"
  by (induction xs rule: phases.induct) simp_all

lemma phases_set:
  "x \<in> set (phases as) \<longleftrightarrow>
     x = 1 \<and> Login \<in> set as \<or> x = 2 \<and> GetDownloadTasks \<in> set as
     \<or> x = 3 \<and> (\<exists>t. PerformDownload t \<in> set as)"
  by (induction as rule: phases.induct) auto

lemma sorted_constant: "\<forall>x \<in> set xs. x = k \<Longrightarrow> sorted xs"
  for xs :: "nat list"
  by (induction xs) auto

lemma in_order_prepend:
  assumes "\<forall>x \<in> set (phases xs). x = k" and "in_order k' as" and "k \<le> k'"
  shows "in_order k (xs @ as)"
proof -
  have "sorted (phases xs)" using assms(1) by (rule sorted_constant)
  then show ?thesis
    using assms by (fastforce simp: in_order_def phases_append sorted_append)
qed

lemma in_order_shutdown:
  assumes "\<forall>x \<in> set (phases xs). x = k" and "phases ys = []"
  shows "in_order k (xs @ ys)"
  using assms sorted_constant [of "phases xs" k] by (simp add: in_order_def phases_append)

lemma in_order_weaken: "in_order k' as \<Longrightarrow> k \<le> k' \<Longrightarrow> in_order k as"
  by (auto simp: in_order_def)

lemma login_phase_phases: "\<forall>x \<in> set (phases (fst (login_phase cfg env))). x = 1"
  using login_phase_only(1,3) [where cfg = cfg and env = env] by (auto simp: phases_set)

lemma discovery_phase_phases: "\<forall>x \<in> set (phases (fst (discovery_phase cfg env))). x = 2"
  using discovery_phase_only(1,3) [where cfg = cfg and env = env] by (auto simp: phases_set)

lemma final_pool_phases: "\<forall>x \<in> set (phases (acts (final_pool cfg c env sched tasks))). x = 3"
proof
  fix x assume "x \<in> set (phases (acts (final_pool cfg c env sched tasks)))"
  then show "x = 3"
    using final_pool_download_acts [of cfg c env sched tasks]
    by (fastforce simp: phases_set)
qed

lemma main_report_phases: "phases (fst (main_report env results)) = []"
  by (simp add: main_report_def catch_def split: option.splits)

lemma main_downloads_in_order: "in_order 3 (fst (main_downloads cfg c env sched tasks))"
proof (cases "settled (final_pool cfg c env sched tasks)")
  case None
  then show ?thesis
    using in_order_shutdown [OF final_pool_phases, of "[]" cfg c env sched tasks]
    by (simp add: main_downloads_pending)
next
  case (Some res)
  show ?thesis
  proof (cases res)
    case (Inl e)
    with Some have f: "settled (final_pool cfg c env sched tasks) = Some (Inl e)" by simp
    show ?thesis
      unfolding main_downloads_failed [OF f] fst_conv
      using final_pool_phases by (rule in_order_shutdown) simp
  next
    case (Inr results)
    with Some have s: "settled (final_pool cfg c env sched tasks) = Some (Inr results)" by simp
    show ?thesis
      unfolding main_downloads_done [OF s] fst_conv
      using final_pool_phases main_report_phases by (rule in_order_shutdown)
  qed
qed

lemma main_tasks_in_order: "in_order 2 (fst (main_tasks cfg c env sched))"
proof (cases "snd (discovery_phase cfg env)")
  case (Inl e)
  show ?thesis
    unfolding main_tasks_failed [OF Inl] fst_conv
    using discovery_phase_phases by (rule in_order_shutdown) simp
next
  case (Inr tasks)
  show ?thesis
    unfolding main_tasks_done [OF Inr] fst_conv
    using discovery_phase_phases main_downloads_in_order by (rule in_order_prepend) simp
qed

lemma main_login_in_order: "in_order 1 (fst (main_login cfg c env sched))"
proof (cases "snd (login_phase cfg env)")
  case (Inl e)
  show ?thesis
    unfolding main_login_failed [OF Inl] fst_conv
    using login_phase_phases by (rule in_order_shutdown) simp
next
  case (Inr u)
  show ?thesis
    unfolding main_login_done [OF Inr] fst_conv
    using login_phase_phases main_tasks_in_order by (rule in_order_prepend) simp
qed

lemma of_tasks_mm_next:
  "of_tasks tasks p \<Longrightarrow> snd job \<in> set tasks \<Longrightarrow> of_tasks tasks (mm_next c job p)"
  by (auto simp: of_tasks_def mm_next_def)

lemma of_tasks_pool_step:
  assumes "of_tasks tasks p" and "active p \<noteq> []"
  shows "of_tasks tasks (pool_step cfg c env choice p)"
proof -
  let ?i = "choice mod length (active p)"
  have i: "?i < length (active p)" using assms(2) by simp
  then have slot: "snd (slot_job (active p ! ?i)) \<in> set tasks"
    using assms(1) by (simp add: of_tasks_def)
  have upd: "\<forall>s \<in> set ((active p)[?i := y]). snd (slot_job s) \<in> set tasks"
    if "snd (slot_job y) \<in> set tasks" for y
    using that assms(1) set_update_subset_insert [of "active p" ?i y]
    by (auto simp: of_tasks_def)
  have rem: "\<forall>s \<in> set (take ?i (active p) @ drop (Suc ?i) (active p)). snd (slot_job s) \<in> set tasks"
    using assms(1) by (auto simp: of_tasks_def dest: in_set_takeD in_set_dropD)
  show ?thesis
  proof (cases "active p ! ?i")
    case (Sleeping pos t k)
    with slot upd [of "Running pos t k"] assms(1) show ?thesis
      by (auto simp: pool_step_def Let_def of_tasks_def)
  next
    case (Running pos t k)
    show ?thesis
    proof (cases "performDownload env pos t k")
      case (Inl e)
      with Running slot upd [of "Sleeping pos t (Suc k)"] assms(1) show ?thesis
        by (cases "backoff cfg k") (auto simp: pool_step_def Let_def of_tasks_def)
    next
      case (Inr res)
      show ?thesis
      proof (cases "buffer p")
        case Nil
        with Running Inr rem assms(1) show ?thesis
          by (simp add: pool_step_def Let_def of_tasks_def)
      next
        case (Cons job rest)
        let ?p1 = "p\<lparr>active := take ?i (active p) @ drop (Suc ?i) (active p),
                      collected := collected p @ [res], buffer := rest\<rparr>"
        have "of_tasks tasks ?p1" using assms(1) rem Cons by (simp add: of_tasks_def)
        moreover have "snd job \<in> set tasks" using assms(1) Cons by (simp add: of_tasks_def)
        ultimately have "of_tasks tasks (mm_next c job ?p1)" by (rule of_tasks_mm_next)
        with Running Inr Cons show ?thesis by (simp add: pool_step_def Let_def)
      qed
    qed
  qed
qed

lemma of_tasks_final:
  fixes env :: "('t, 'r) environment"
  shows "of_tasks tasks (final_pool cfg c env sched tasks)"
proof (rule final_pool_invariant)
  show "of_tasks tasks (subscribe c tasks :: ('t, 'r) pool)"
  proof (rule subscribe_invariant)
    show "of_tasks tasks (empty_pool :: ('t, 'r) pool)" by (simp add: of_tasks_def empty_pool_def)
  next
    fix job and q :: "('t, 'r) pool"
    assume "of_tasks tasks q" and "job \<in> set (enumerate 0 tasks)"
    then have "snd job = tasks ! fst job" and "fst job < length tasks"
      by (simp_all add: in_set_enumerate_eq)
    then have "snd job \<in> set tasks" by simp
    with \<open>of_tasks tasks q\<close> show "of_tasks tasks (mm_next c job q)"
      by (rule of_tasks_mm_next)
  qed
next
  fix choice and q :: "('t, 'r) pool"
  assume "of_tasks tasks q" and "active q \<noteq> []"
  then show "of_tasks tasks (pool_step cfg c env choice q)" by (rule of_tasks_pool_step)
qed

lemma main_downloads_of_tasks:
  assumes "PerformDownload t \<in> set (fst (main_downloads cfg c env sched tasks))"
  shows "t \<in> set tasks"
proof -
  have "PerformDownload t \<in> set (acts (final_pool cfg c env sched tasks))"
  proof (cases "settled (final_pool cfg c env sched tasks)")
    case None
    with assms show ?thesis by (simp add: main_downloads_pending)
  next
    case (Some res)
    show ?thesis
    proof (cases res)
      case (Inl e)
      with Some have "settled (final_pool cfg c env sched tasks) = Some (Inl e)" by simp
      with assms show ?thesis by (simp add: main_downloads_failed)
    next
      case (Inr results)
      with Some have "settled (final_pool cfg c env sched tasks) = Some (Inr results)" by simp
      with assms main_report_acts [of "PerformDownload t" env results] show ?thesis
        by (auto simp: main_downloads_done)
    qed
  qed
  then show ?thesis using of_tasks_final [of tasks cfg c env sched] by (simp add: of_tasks_def)
qed

subsection \<open>Completions and refills\<close>

lemma pool_states_step:
  "active p \<noteq> [] \<Longrightarrow>
     pool_states cfg c env sched p
       = p # pool_states cfg c env (tl sched)
               (pool_step cfg c env (case sched of [] \<Rightarrow> 0 | choice # x \<Rightarrow> choice) p)"
  by (subst pool_states.simps) simp

lemma pool_states_successively:
  assumes "P p"
    and "\<And>choice q. P q \<Longrightarrow> active q \<noteq> []
           \<Longrightarrow> P (pool_step cfg c env choice q) \<and> R q (pool_step cfg c env choice q)"
  shows "successively R (pool_states cfg c env sched p)"
  using assms
proof (induction cfg c env sched p rule: pool_states.induct)
  case (1 cfg c env sched p)
  show ?case
  proof (cases "active p = []")
    case True
    then show ?thesis by (subst pool_states.simps) simp
  next
    case False
    let ?q = "pool_step cfg c env (case sched of [] \<Rightarrow> 0 | choice # x \<Rightarrow> choice) p"
    have q: "P ?q" and r: "R p ?q" using "1.prems" False by blast+
    have "successively R (pool_states cfg c env (tl sched) ?q)"
      using False q "1.prems"(2) by (intro "1.IH") simp_all
    moreover obtain rest where "pool_states cfg c env (tl sched) ?q = ?q # rest"
      using pool_states_first by blast
    ultimately show ?thesis
      using r unfolding pool_states_step [OF False] by simp
  qed
qed

lemma pool_step_completion:
  fixes p :: "('t, 'r) pool"
  assumes w: "window n p" and a: "active p \<noteq> []" and n: "1 \<le> n"
    and c: "collected (pool_step cfg (Fin n) env choice p) = collected p @ [r]"
  shows "\<exists>i < length (active p).
           (case buffer p of
              [] \<Rightarrow> buffer (pool_step cfg (Fin n) env choice p) = []
                  \<and> active (pool_step cfg (Fin n) env choice p)
                      = take i (active p) @ drop (Suc i) (active p)
            | job # rest \<Rightarrow> buffer (pool_step cfg (Fin n) env choice p) = rest
                  \<and> active (pool_step cfg (Fin n) env choice p)
                      = take i (active p) @ drop (Suc i) (active p) @ [Running (fst job) (snd job) 0]
                  \<and> acts (pool_step cfg (Fin n) env choice p)
                      = acts p @ [PerformDownload (snd job)])"
proof -
  let ?i = "choice mod length (active p)"
  have i: "?i < length (active p)" using a by simp
  show ?thesis
  proof (cases "active p ! ?i")
    case (Sleeping pos t k)
    with c show ?thesis by (simp add: pool_step_def Let_def)
  next
    case (Running pos t k)
    show ?thesis
    proof (cases "performDownload env pos t k")
      case (Inl e)
      with Running c show ?thesis
        by (cases "backoff cfg k") (simp_all add: pool_step_def Let_def)
    next
      case (Inr res)
      show ?thesis
      proof (cases "buffer p")
        case Nil
        with Running Inr have
          "buffer (pool_step cfg (Fin n) env choice p) = []
           \<and> active (pool_step cfg (Fin n) env choice p) = take ?i (active p) @ drop (Suc ?i) (active p)"
          by (simp add: pool_step_def Let_def)
        with i Nil show ?thesis by (intro exI [of _ ?i]) simp
      next
        case (Cons job rest)
        with w have full: "int (length (active p)) = n" by (simp add: window_def)
        with i have "int (length (take ?i (active p) @ drop (Suc ?i) (active p))) < n"
          by simp
        with Running Inr Cons have
          "buffer (pool_step cfg (Fin n) env choice p) = rest
           \<and> active (pool_step cfg (Fin n) env choice p)
               = take ?i (active p) @ drop (Suc ?i) (active p) @ [Running (fst job) (snd job) 0]
           \<and> acts (pool_step cfg (Fin n) env choice p) = acts p @ [PerformDownload (snd job)]"
          by (simp add: pool_step_def Let_def mm_next_def)
        with i Cons show ?thesis by (intro exI [of _ ?i]) simp
      qed
    qed
  qed
qed

lemma population_pool_step:
  assumes "active p \<noteq> []" and "failure (pool_step cfg c env choice p) = None"
  shows "population (pool_step cfg c env choice p) = population p"
proof -
  let ?i = "choice mod length (active p)"
  have i: "?i < length (active p)" using assms(1) by simp
  show ?thesis
  proof (cases "active p ! ?i")
    case (Sleeping pos t k)
    then show ?thesis by (simp add: pool_step_def Let_def population_def)
  next
    case (Running pos t k)
    show ?thesis
    proof (cases "performDownload env pos t k")
      case (Inl e)
      with Running assms(2) show ?thesis
        by (cases "backoff cfg k") (simp_all add: pool_step_def Let_def population_def)
    next
      case (Inr res)
      let ?p1 = "p\<lparr>active := take ?i (active p) @ drop (Suc ?i) (active p),
                    collected := collected p @ [res]\<rparr>"
      have len: "length (take ?i (active p)) + length (drop (Suc ?i) (active p)) + 1
          = length (active p)" using i by simp
      show ?thesis
      proof (cases "buffer p")
        case Nil
        with Running Inr len show ?thesis
          by (simp add: pool_step_def Let_def population_def)
      next
        case (Cons job rest)
        have "population (mm_next c job (?p1\<lparr>buffer := rest\<rparr>)) = population p"
          using len Cons by (simp add: population_mm_next) (simp add: population_def)
        then show ?thesis
          using Running Inr Cons by (simp add: pool_step_def Let_def)
      qed
    qed
  qed
qed

lemma active_mm_next_length:
  "length (active (mm_next (Fin n) job p)) = (if int (length (active p)) < n then Suc (length (active p)) else length (active p))"
  by (simp add: mm_next_def)

lemma dispatched_active:
  assumes "0 \<le> n"
  shows "length (active (last (p # dispatch (Fin n) jobs p)))
           = max (length (active p)) (min (nat n) (length (active p) + length jobs))"
proof (induction jobs arbitrary: p)
  case Nil
  show ?case by simp
next
  case (Cons job jobs)
  show ?case
    unfolding last_dispatch_Cons Cons.IH using assms by (auto simp: active_mm_next_length)
qed

lemma subscribe_active:
  assumes "0 \<le> n"
  shows "length (active (subscribe (Fin n) tasks)) = min (nat n) (length tasks)"
  unfolding subscribe_def dispatched_active [OF assms] by (simp add: empty_pool_def)

subsection \<open>Which results a download phase collects\<close>

lemma positions_mm_next: "mset (positions (mm_next c job p)) = add_mset (fst job) (mset (positions p))"
  by (simp add: positions_def mm_next_def)

lemma consistent_mm_next:
  "consistent cfg env tasks p \<Longrightarrow> snd job = tasks ! fst job \<Longrightarrow> consistent cfg env tasks (mm_next c job p)"
  by (simp add: consistent_def mm_next_def slot_sound_def)

lemma collected_mm_next: "collected (mm_next c job p) = collected p"
  by (simp add: mm_next_def)

lemma dispatched_positions:
  "mset (positions (last (p # dispatch c jobs p))) = mset (map fst jobs) + mset (positions p)"
proof (induction jobs arbitrary: p)
  case Nil
  show ?case by simp
next
  case (Cons job jobs)
  show ?case unfolding last_dispatch_Cons Cons.IH by (simp add: positions_mm_next)
qed

lemma dispatched_collected: "collected (last (p # dispatch c jobs p)) = collected p"
proof (induction jobs arbitrary: p)
  case Nil
  show ?case by simp
next
  case (Cons job jobs)
  show ?case unfolding last_dispatch_Cons Cons.IH by (simp add: collected_mm_next)
qed

lemma accounted_subscribe:
  fixes env :: "('t, 'r) environment"
  shows "accounted cfg env tasks [] (subscribe c tasks)"
proof -
  have "consistent cfg env tasks (subscribe c tasks)"
  proof (rule subscribe_invariant)
    show "consistent cfg env tasks empty_pool" by (simp add: consistent_def empty_pool_def)
  next
    fix job and q :: "('t, 'r) pool"
    assume "consistent cfg env tasks q" and "job \<in> set (enumerate 0 tasks)"
    then show "consistent cfg env tasks (mm_next c job q)"
      by (intro consistent_mm_next) (simp_all add: in_set_enumerate_eq)
  qed
  moreover have "mset (positions (subscribe c tasks :: ('t, 'r) pool)) = mset [0..<length tasks]"
    unfolding subscribe_def dispatched_positions
    by (simp add: positions_def empty_pool_def)
  moreover have "collected (subscribe c tasks :: ('t, 'r) pool) = []"
    unfolding subscribe_def dispatched_collected by (simp add: empty_pool_def)
  ultimately show ?thesis by (simp add: accounted_def)
qed

lemma map_update_same:
  assumes "i < length xs" and "f y = f (xs ! i)"
  shows "map f (xs[i := y]) = map f xs"
  using assms by (simp add: map_update list_update_same_conv)

lemma mset_map_remove_nth:
  assumes "i < length xs"
  shows "add_mset (f (xs ! i)) (mset (map f (take i xs @ drop (Suc i) xs))) = mset (map f xs)"
proof -
  have "mset (map f xs) = mset (map f (take i xs @ xs ! i # drop (Suc i) xs))"
    by (rule arg_cong [where f = "\<lambda>l. mset (map f l)", OF id_take_nth_drop [OF assms]])
  also have "\<dots> = add_mset (f (xs ! i)) (mset (map f (take i xs @ drop (Suc i) xs)))"
    by simp
  finally show ?thesis by simp
qed

lemma failure_mm_next: "failure (mm_next c job p) = failure p"
  by (simp add: mm_next_def)

lemma failure_pool_step:
  assumes "failure p \<noteq> None"
  shows "failure (pool_step cfg c env choice p) \<noteq> None"
proof (cases "active p ! (choice mod length (active p))")
  case (Sleeping pos t k)
  with assms show ?thesis by (simp add: pool_step_def Let_def)
next
  case (Running pos t k)
  show ?thesis
  proof (cases "performDownload env pos t k")
    case (Inl e)
    with Running assms show ?thesis
      by (cases "backoff cfg k") (simp_all add: pool_step_def Let_def)
  next
    case (Inr r)
    with Running assms show ?thesis
      by (cases "buffer p") (simp_all add: pool_step_def Let_def failure_mm_next)
  qed
qed

lemma accounted_pool_step:
  assumes acc: "accounted cfg env tasks ps p" and "active p \<noteq> []"
  shows "failure (pool_step cfg c env choice p) \<noteq> None
       \<or> (\<exists>ps'. accounted cfg env tasks ps' (pool_step cfg c env choice p))"
proof -
  let ?i = "choice mod length (active p)"
  have i: "?i < length (active p)" using assms(2) by simp
  have res: "list_all2 (first_success cfg env tasks) ps (collected p)"
    and total: "mset ps + mset (positions p) = mset [0..<length tasks]"
    and cons: "consistent cfg env tasks p"
    using acc by (simp_all add: accounted_def)
  have sound: "slot_sound cfg env tasks (active p ! ?i)"
    using cons i by (simp add: consistent_def list_all_length)
  have same: "accounted cfg env tasks ps (p\<lparr>active := (active p)[?i := y], acts := as\<rparr>)"
    if "slot_job y = slot_job (active p ! ?i)" and "slot_sound cfg env tasks y" for y as
  proof -
    have "map (fst \<circ> slot_job) ((active p)[?i := y]) = map (fst \<circ> slot_job) (active p)"
      using i that(1) by (intro map_update_same) simp_all
    moreover have "list_all (slot_sound cfg env tasks) ((active p)[?i := y])"
      using cons that(2) by (intro list_all_update) (simp_all add: consistent_def)
    ultimately show ?thesis
      using res total cons by (simp add: accounted_def positions_def consistent_def)
  qed
  show ?thesis
  proof (cases "active p ! ?i")
    case (Sleeping pos t k)
    have "slot_sound cfg env tasks (Running pos t k)"
      using sound Sleeping by (auto simp: slot_sound_def)
    then have "accounted cfg env tasks ps
        (p\<lparr>active := (active p)[?i := Running pos t k], acts := acts p @ [PerformDownload t]\<rparr>)"
      using Sleeping by (intro same) simp_all
    with Sleeping show ?thesis by (auto simp: pool_step_def Let_def)
  next
    case (Running pos t k)
    have t: "t = tasks ! pos" and k: "k \<le> budget (maxRetries cfg)"
      and before: "\<forall>j < k. \<exists>e. performDownload env pos t j = Inl e"
      using sound Running by (auto simp: slot_sound_def)
    show ?thesis
    proof (cases "performDownload env pos t k")
      case (Inl e)
      show ?thesis
      proof (cases "backoff cfg k")
        case Exhausted
        with Running Inl show ?thesis by (simp add: pool_step_def Let_def)
      next
        case (Delay d)
        then have "k < budget (maxRetries cfg)" by (rule backoff_Delay_budget)
        moreover have "\<forall>j < Suc k. \<exists>e. performDownload env pos t j = Inl e"
          using before Inl by (auto simp: less_Suc_eq)
        ultimately have "slot_sound cfg env tasks (Sleeping pos t (Suc k))"
          using t by (auto simp: slot_sound_def)
        then have "accounted cfg env tasks ps
            (p\<lparr>active := (active p)[?i := Sleeping pos t (Suc k)], acts := acts p @ [Wait d]\<rparr>)"
          using Running by (intro same) simp_all
        with Running Inl Delay show ?thesis by (auto simp: pool_step_def Let_def)
      qed
    next
      case (Inr r)
      let ?rest = "take ?i (active p) @ drop (Suc ?i) (active p)"
      let ?p1 = "p\<lparr>active := ?rest, collected := collected p @ [r]\<rparr>"
      have "first_success cfg env tasks pos r"
        unfolding first_success_def using Inr k before t by blast
      then have res1: "list_all2 (first_success cfg env tasks) (ps @ [pos]) (collected p @ [r])"
        using res by (simp add: list_all2_appendI)
      have rem: "add_mset pos (mset (map (fst \<circ> slot_job) ?rest)) = mset (map (fst \<circ> slot_job) (active p))"
        using mset_map_remove_nth [OF i, of "fst \<circ> slot_job"] Running by simp
      have "mset (ps @ [pos]) + mset (positions ?p1)
          = mset ps + (add_mset pos (mset (map (fst \<circ> slot_job) ?rest)) + mset (map fst (buffer p)))"
        by (simp add: positions_def)
      also have "\<dots> = mset ps + mset (positions p)"
        unfolding rem by (simp add: positions_def)
      finally have total1: "mset (ps @ [pos]) + mset (positions ?p1) = mset [0..<length tasks]"
        using total by simp
      have "list_all (slot_sound cfg env tasks) ?rest"
        using cons by (intro list_all_remove_nth) (simp add: consistent_def)
      then have cons1: "consistent cfg env tasks ?p1"
        using cons by (simp add: consistent_def del: list_all_append)
      show ?thesis
      proof (cases "buffer p")
        case Nil
        then have "accounted cfg env tasks (ps @ [pos]) ?p1"
          using res1 total1 cons1 by (simp add: accounted_def)
        with Running Inr Nil show ?thesis by (auto simp: pool_step_def Let_def)
      next
        case (Cons job rest)
        let ?p2 = "?p1\<lparr>buffer := rest\<rparr>"
        have jc: "snd job = tasks ! fst job" using cons Cons by (simp add: consistent_def)
        have "consistent cfg env tasks ?p2" using cons1 Cons by (simp add: consistent_def)
        then have cons2: "consistent cfg env tasks (mm_next c job ?p2)" using jc by (rule consistent_mm_next)
        have "mset (positions ?p1) = add_mset (fst job) (mset (positions ?p2))"
          using Cons by (simp add: positions_def)
        then have "mset (positions (mm_next c job ?p2)) = mset (positions ?p1)"
          by (simp add: positions_mm_next)
        then have "accounted cfg env tasks (ps @ [pos]) (mm_next c job ?p2)"
          using res1 total1 cons2 by (simp add: accounted_def collected_mm_next)
        with Running Inr Cons show ?thesis by (auto simp: pool_step_def Let_def)
      qed
    qed
  qed
qed

lemma accounted_final:
  fixes env :: "('t, 'r) environment"
  shows "failure (final_pool cfg c env sched tasks) \<noteq> None
       \<or> (\<exists>ps. accounted cfg env tasks ps (final_pool cfg c env sched tasks))"
proof (rule final_pool_invariant)
  show "failure (subscribe c tasks :: ('t, 'r) pool) \<noteq> None
      \<or> (\<exists>ps. accounted cfg env tasks ps (subscribe c tasks))"
    using accounted_subscribe [of cfg env tasks c] by blast
next
  fix choice and q :: "('t, 'r) pool"
  assume "failure q \<noteq> None \<or> (\<exists>ps. accounted cfg env tasks ps q)" and "active q \<noteq> []"
  then show "failure (pool_step cfg c env choice q) \<noteq> None
      \<or> (\<exists>ps. accounted cfg env tasks ps (pool_step cfg c env choice q))"
    using failure_pool_step [of q cfg c env choice] accounted_pool_step [of cfg env tasks _ q c choice]
    by blast
qed

lemma settled_results_accounted:
  assumes "settled (final_pool cfg c env sched tasks) = Some (Inr results)"
  shows "\<exists>ps. mset ps = mset [0..<length tasks] \<and> list_all2 (first_success cfg env tasks) ps results"
proof -
  let ?p = "final_pool cfg c env sched tasks"
  from assms have f: "failure ?p = None" and b: "buffer ?p = []" and r: "results = collected ?p"
    by (auto simp: settled_def split: option.splits if_splits)
  have a: "active ?p = []" by (rule final_pool_idle)
  from f accounted_final [of cfg c env sched tasks] obtain ps where "accounted cfg env tasks ps ?p"
    by blast
  then have "mset ps = mset [0..<length tasks] \<and> list_all2 (first_success cfg env tasks) ps results"
    using a b r by (simp add: accounted_def positions_def)
  then show ?thesis by blast
qed

subsection \<open>Runs that end the process\<close>

lemma main_report_exits: "\<exists>code. snd (main_report env results) = Exit code \<and> code \<le> 1"
  by (simp add: main_report_def catch_def split: option.splits)

lemma final_pool_settles:
  assumes "1 \<le> n"
  shows "\<exists>res. settled (final_pool cfg (Fin n) env sched tasks) = Some res"
  using final_pool_drained [OF assms, of cfg env sched tasks]
  by (simp add: settled_def split: option.splits)

lemma main_downloads_exits:
  assumes "1 \<le> n"
  shows "\<exists>code. snd (main_downloads cfg (Fin n) env sched tasks) = Exit code \<and> code \<le> 1"
proof -
  from final_pool_settles [OF assms] obtain res where
    res: "settled (final_pool cfg (Fin n) env sched tasks) = Some res" by blast
  show ?thesis
  proof (cases res)
    case (Inl e)
    with res have "settled (final_pool cfg (Fin n) env sched tasks) = Some (Inl e)" by simp
    then show ?thesis by (simp add: main_downloads_failed)
  next
    case (Inr results)
    with res have "settled (final_pool cfg (Fin n) env sched tasks) = Some (Inr results)" by simp
    then show ?thesis using main_report_exits [of env results] by (simp add: main_downloads_done)
  qed
qed

lemma main_tasks_exits:
  assumes "1 \<le> n"
  shows "\<exists>code. snd (main_tasks cfg (Fin n) env sched) = Exit code \<and> code \<le> 1"
proof (cases "snd (discovery_phase cfg env)")
  case (Inl e)
  then show ?thesis by (simp add: main_tasks_failed)
next
  case (Inr tasks)
  then show ?thesis
    using main_downloads_exits [OF assms, of cfg env sched tasks] by (simp add: main_tasks_done)
qed

lemma main_login_exits:
  assumes "1 \<le> n"
  shows "\<exists>code. snd (main_login cfg (Fin n) env sched) = Exit code \<and> code \<le> 1"
proof (cases "snd (login_phase cfg env)")
  case (Inl e)
  then show ?thesis by (simp add: main_login_failed)
next
  case (Inr u)
  then show ?thesis
    using main_tasks_exits [OF assms, of cfg env sched] by (simp add: main_login_done)
qed

subsection \<open>What the dump depends on\<close>

lemma fill_in_censor:
  assumes "k = ''user'' \<or> k = ''password''"
  shows "fill_in ob k typed ++ censor = ob ++ censor"
proof
  fix x
  show "(fill_in ob k typed ++ censor) x = (ob ++ censor) x"
    using assms by (auto simp: fill_in_def censor_def map_add_def)
qed

lemma program_opts_credentials:
  assumes "program_opts c = Inr opts"
  shows "\<exists>opts'. program_opts (c\<lparr>user_opt := u, password_opt := p\<rparr>) = Inr opts'
           \<and> opts'(''courseUrl'' \<mapsto> v) ++ censor = opts(''courseUrl'' \<mapsto> v) ++ censor"
proof (cases "case format_opt c of None \<Rightarrow> Inr ''pdf'' | Some v \<Rightarrow> parseFormat v")
  case (Inl code)
  with assms show ?thesis by (simp add: program_opts_def)
next
  case (Inr fmt)
  let ?opts' = "[''user'' \<mapsto> (case u of None \<Rightarrow> Undefined | Some s \<Rightarrow> Str s),
           ''password'' \<mapsto> (case p of None \<Rightarrow> Undefined | Some s \<Rightarrow> Str s),
           ''output'' \<mapsto> Str (or_default (output_opt c) ''Archive''),
           ''format'' \<mapsto> Str fmt,
           ''retries'' \<mapsto> Number (or_default (retries_opt c) (Fin 3)),
           ''delay'' \<mapsto> Number (or_default (delay_opt c) (Fin 1)),
           ''concurrency'' \<mapsto> Number (or_default (concurrency_opt c) (Fin 4)),
           ''debug'' \<mapsto> Bool (debug_opt c)]"
  have o': "program_opts (c\<lparr>user_opt := u, password_opt := p\<rparr>) = Inr ?opts'"
    using Inr by (simp add: program_opts_def)
  have o: "opts = [''user'' \<mapsto> (case user_opt c of None \<Rightarrow> Undefined | Some s \<Rightarrow> Str s),
           ''password'' \<mapsto> (case password_opt c of None \<Rightarrow> Undefined | Some s \<Rightarrow> Str s),
           ''output'' \<mapsto> Str (or_default (output_opt c) ''Archive''),
           ''format'' \<mapsto> Str fmt,
           ''retries'' \<mapsto> Number (or_default (retries_opt c) (Fin 3)),
           ''delay'' \<mapsto> Number (or_default (delay_opt c) (Fin 1)),
           ''concurrency'' \<mapsto> Number (or_default (concurrency_opt c) (Fin 4)),
           ''debug'' \<mapsto> Bool (debug_opt c)]"
    using assms Inr by (simp add: program_opts_def)
  have "?opts'(''courseUrl'' \<mapsto> v) ++ censor = opts(''courseUrl'' \<mapsto> v) ++ censor"
  proof
    fix x
    show "(?opts'(''courseUrl'' \<mapsto> v) ++ censor) x = (opts(''courseUrl'' \<mapsto> v) ++ censor) x"
      unfolding o by (simp add: censor_def map_add_def)
  qed
  with o' show ?thesis by blast
qed

lemma getConfiguration_dump:
  assumes "getConfiguration c tu tp [] = (h, Inr r)"
  shows "\<exists>opts url. program_opts c = Inr opts \<and> positional c = [url]
           \<and> deref h r ++ censor = opts(''courseUrl'' \<mapsto> Str url) ++ censor"
proof -
  from getConfiguration_Inr_heap [OF assms] obtain opts url where
    opts: "program_opts c = Inr opts" and url: "positional c = [url]" and r: "r = 2" and
    h: "h = [opts, Map.empty,
         fill_in (fill_in (opts(''courseUrl'' \<mapsto> Str url)) ''user'' tu) ''password'' tp]"
    by blast
  have "deref h r
      = fill_in (fill_in (opts(''courseUrl'' \<mapsto> Str url)) ''user'' tu) ''password'' tp"
    by (simp add: h r deref_def)
  then have "deref h r ++ censor = opts(''courseUrl'' \<mapsto> Str url) ++ censor"
    by (simp add: fill_in_censor)
  with opts url show ?thesis by blast
qed

lemma dump_independent:
  assumes conf: "getConfiguration c tu tp [] = (h, Inr r)"
  shows "\<exists>h' r'. getConfiguration (c\<lparr>user_opt := u, password_opt := p\<rparr>) tu' tp' [] = (h', Inr r')
           \<and> deref h' r' ++ censor = deref h r ++ censor"
proof -
  let ?c' = "c\<lparr>user_opt := u, password_opt := p\<rparr>"
  from getConfiguration_dump [OF conf] obtain opts url where
    opts: "program_opts c = Inr opts" and url: "positional c = [url]"
    and d: "deref h r ++ censor = opts(''courseUrl'' \<mapsto> Str url) ++ censor"
    by blast
  from getConfiguration_Inr_conditions [OF conf] url have
    fmt: "format_opt c = None \<or> format_opt c = Some ''pdf'' \<or> format_opt c = Some ''png''"
    and m: "rx_match courseUrlPattern url"
    by auto
  have "\<exists>h' r'. getConfiguration ?c' tu' tp' [] = (h', Inr r')"
    using fmt url m by (intro getConfiguration_accepts [where url = url]) simp_all
  then obtain h' r' where conf': "getConfiguration ?c' tu' tp' [] = (h', Inr r')" by blast
  from getConfiguration_dump [OF conf'] url obtain opts' where
    opts': "program_opts ?c' = Inr opts'"
    and d': "deref h' r' ++ censor = opts'(''courseUrl'' \<mapsto> Str url) ++ censor"
    by auto
  from program_opts_credentials [OF opts, where u = u and p = p and v = "Str url"] opts'
  have "opts'(''courseUrl'' \<mapsto> Str url) ++ censor = opts(''courseUrl'' \<mapsto> Str url) ++ censor"
    by auto
  then have "deref h' r' ++ censor = deref h r ++ censor"
    unfolding d d' .
  with conf' show ?thesis by blast
qed

lemma main_dump_first:
  assumes "getConfiguration c (typed_user env) (typed_password env) [] = (h, Inr r)"
    and "debug_opt c"
  shows "\<exists>rest. fst (main c env sched) = Dump (deref h r ++ censor) # rest"
  using assms(2) by (simp add: main_Inr [OF assms(1)] split: option.splits)

subsection \<open>The example runs\<close>

lemmas run_simps =
  main_login_def main_tasks_def main_downloads_def main_report_def catch_def
  retryBackoff.simps final_pool_def subscribe_def pool_states.simps pool_step_def mm_next_def
  settled_def backoff_def backoffConfig_def getDelay_def exponentialBackoffDelay_def
  empty_pool_def or_default_def Let_def

lemma e1_pool:
  "settled (final_pool (backoffConfig (Fin 1)) (Fin 4) e1 [] [''week1'', ''week2''])
     = Some (Inl ''timeout'')"
  by (simp add: run_simps e1_def)

lemma e1_login:
  "main_login (backoffConfig (Fin 1)) (Fin 4) e1 []
     = ([Login, GetDownloadTasks, PerformDownload ''week1'', PerformDownload ''week2'',
         Wait 5000, PerformDownload ''week2'', ConsoleError ''timeout'', Close], Exit 1)"
  by (simp add: run_simps e1_def)

lemma main_report_first: "\<exists>rest. fst (main_report env results) = ReportResults results # rest"
  by (simp add: main_report_def catch_def split: option.splits)

lemma c7_accepted: "\<exists>h r. getConfiguration c7 tu tp [] = (h, Inr r)"
  by (rule getConfiguration_accepts [OF _ _ course_url_X]) (simp_all add: c7_def)

lemma c7_opts:
  "or_default (retries_opt c7) (Fin 3) = Fin 0" "or_default (concurrency_opt c7) (Fin 4) = Fin 1"
  "\<not> debug_opt c7"
  by (simp_all add: c7_def or_default_def)

lemma c8_accepted: "\<exists>h r. getConfiguration (c8 n) tu tp [] = (h, Inr r)"
  by (rule getConfiguration_accepts [OF _ _ course_url_X]) (simp_all add: c8_def)

lemma w1_pool:
  "settled (final_pool (backoffConfig (Fin 3)) (Fin 2) w1 [1, 1, 1] [''week1'', ''week2''])
     = Some (Inr [''week2.pdf'', ''week1.pdf''])"
  by (simp add: run_simps w1_def)

lemma w7_login:
  "main_login (backoffConfig (Fin 0)) (Fin 1) w7 []
     = ([Login, GetDownloadTasks, PerformDownload ''week1'', ReportResults [''week1.pdf''], Close],
        Exit 0)"
  by (simp add: run_simps w7_def)

section \<open>The backoff policy\<close>

text \<open>
  C3. The attempts of a retried operation are counted from 1, so the failure of attempt
  \<open>attempt\<close> is the failure number \<open>attempt - 1\<close> in the policy's own count from 0. For every
  attempt from 1 to \<open>maxRetries\<close> the policy answers with the delay
  \<open>min (initial * 2 ^ (attempt - 1)) max\<close>; the delays do not decrease with the attempt and
  never exceed \<open>max\<close>; and for the attempt \<open>maxRetries + 1\<close> the policy answers \<open>Exhausted\<close>.
\<close>

theorem backoff_policy_delay:
  assumes "maxRetries cfg = Fin R"
  shows "(\<forall>attempt. 1 \<le> attempt \<and> int attempt \<le> R \<longrightarrow>
            backoff cfg (attempt - 1)
              = Delay (min (initialInterval cfg * 2 ^ (attempt - 1)) (maxInterval cfg)))
       \<and> (\<forall>a b d d'. 1 \<le> a \<and> a \<le> b \<and> int b \<le> R
              \<and> backoff cfg (a - 1) = Delay d \<and> backoff cfg (b - 1) = Delay d'
            \<longrightarrow> d \<le> d' \<and> d' \<le> maxInterval cfg)
       \<and> (0 \<le> R \<longrightarrow> backoff cfg (nat (R + 1) - 1) = Exhausted)"
proof (intro conjI allI impI)
  fix attempt :: nat
  assume a: "1 \<le> attempt \<and> int attempt \<le> R"
  then have "int (attempt - 1) < R" by linarith
  then show "backoff cfg (attempt - 1)
      = Delay (min (initialInterval cfg * 2 ^ (attempt - 1)) (maxInterval cfg))"
    using assms by (simp add: backoff_def getDelay_def exponentialBackoffDelay_def mult.commute)
next
  fix a b d d' :: nat
  assume h: "1 \<le> a \<and> a \<le> b \<and> int b \<le> R
      \<and> backoff cfg (a - 1) = Delay d \<and> backoff cfg (b - 1) = Delay d'"
  then have d: "d = min (2 ^ (a - 1) * initialInterval cfg) (maxInterval cfg)"
    and d': "d' = min (2 ^ (b - 1) * initialInterval cfg) (maxInterval cfg)"
    by (auto simp: backoff_def getDelay_def exponentialBackoffDelay_def split: if_splits)
  have "(2::nat) ^ (a - 1) \<le> 2 ^ (b - 1)"
    using h by (intro power_increasing) auto
  then have "2 ^ (a - 1) * initialInterval cfg \<le> 2 ^ (b - 1) * initialInterval cfg"
    by (rule mult_le_mono1)
  then show "d \<le> d'" unfolding d d' by (rule min.mono) simp
  show "d' \<le> maxInterval cfg" unfolding d' by simp
next
  assume "0 \<le> R"
  then have "\<not> int (nat (R + 1) - 1) < R" by simp
  then show "backoff cfg (nat (R + 1) - 1) = Exhausted"
    using assms by (simp add: backoff_def)
qed

theorem backoff_policy_delay_witness:
  "maxRetries (backoffConfig (Fin 3)) = Fin 3
   \<and> backoff (backoffConfig (Fin 3)) 0 = Delay 5000
   \<and> backoff (backoffConfig (Fin 3)) 1 = Delay 10000
   \<and> backoff (backoffConfig (Fin 3)) 2 = Delay 20000
   \<and> backoff (backoffConfig (Fin 3)) 3 = Exhausted
   \<and> backoff (backoffConfig (Fin 9)) 4 = Delay 60000"
proof -
  have m: "maxRetries (backoffConfig (Fin 3)) = Fin 3" by (simp add: backoffConfig_def)
  have m9: "maxRetries (backoffConfig (Fin 9)) = Fin 9" by (simp add: backoffConfig_def)
  note t = backoff_policy_delay [OF m, THEN conjunct1, rule_format]
  have "backoff (backoffConfig (Fin 3)) (1 - 1) = Delay 5000"
    using t [of 1] by (simp add: backoffConfig_def)
  moreover have "backoff (backoffConfig (Fin 3)) (2 - 1) = Delay 10000"
    using t [of 2] by (simp add: backoffConfig_def)
  moreover have "backoff (backoffConfig (Fin 3)) (3 - 1) = Delay 20000"
    using t [of 3] by (simp add: backoffConfig_def)
  moreover have "backoff (backoffConfig (Fin 3)) (nat (3 + 1) - 1) = Exhausted"
    using backoff_policy_delay [OF m, THEN conjunct2, THEN conjunct2] by simp
  moreover have "backoff (backoffConfig (Fin 9)) (5 - 1) = Delay 60000"
    using backoff_policy_delay [OF m9, THEN conjunct1, rule_format, of 5]
    by (simp add: backoffConfig_def)
  ultimately show ?thesis using m by simp
qed

section \<open>The debug dump\<close>

text \<open>
  C10. In a run with the debug flag, the configuration is printed once, first of all. The
  printed object is the configuration with \<^verbatim>\<open>user\<close> and \<^verbatim>\<open>password\<close> overwritten by the
  literal \<^verbatim>\<open><censored>\<close>: these two properties hold the literal and every other property is
  that of the configuration. The dump does not depend on the credentials: a run with the
  same command line but any other user and password options, any other answers to the
  prompts and any other environment prints the very same object. The configuration object
  itself is not changed by the dump: the object the downloader is constructed with holds
  the credentials that were given or typed in.
\<close>

theorem debug_dump_censored:
  fixes env :: "('t, 'r) environment"
  assumes conf: "getConfiguration c (typed_user env) (typed_password env) [] = (h, Inr r)"
    and debug: "debug_opt c"
  shows "\<exists>printed rest.
           fst (main c env sched) = Dump printed # rest
         \<and> printed = deref h r ++ censor
         \<and> printed ''user'' = Some (Str ''<censored>'')
         \<and> printed ''password'' = Some (Str ''<censored>'')
         \<and> (\<forall>k. k \<noteq> ''user'' \<and> k \<noteq> ''password'' \<longrightarrow> printed k = deref h r k)
         \<and> (\<forall>u p (env' :: ('t1, 'r1) environment) sched'. \<exists>rest'.
                fst (main (c\<lparr>user_opt := u, password_opt := p\<rparr>) env' sched') = Dump printed # rest')
         \<and> (\<forall>ob. Dump ob \<notin> set rest)
         \<and> (\<forall>ob. NewDownloader ob \<in> set rest \<longrightarrow>
                ob ''user'' = Some (Str (given_or_typed (user_opt c) (typed_user env)))
              \<and> ob ''password'' = Some (Str (given_or_typed (password_opt c) (typed_password env))))
         \<and> deref (fst (main_debug h r :: heap \<times> ('t, 'r) action list)) r = deref h r"
proof -
  note cf = getConfiguration_Inr [OF conf]
  let ?printed = "deref h r ++ censor"
  let ?login = "fst (main_login (backoffConfig (or_default (retries_opt c) (Fin 3)))
                     (or_default (concurrency_opt c) (Fin 4)) env sched)"
  define rest where "rest = (case puppeteer_launch env of
       Some e \<Rightarrow> [Launch, ConsoleError e]
     | None \<Rightarrow> Launch # NewDownloader (deref h r) # ?login)"
  have run: "fst (main c env sched) = Dump ?printed # rest"
    using debug by (simp add: main_Inr [OF conf] rest_def split: option.splits)
  have nl: "\<not> startup_act a" if "a \<in> set ?login" for a
    using that by (rule main_login_not_startup)
  have nodump: "Dump ob \<notin> set rest" for ob
    using nl [of "Dump ob"] by (auto simp: rest_def split: option.splits)
  have used: "ob = deref h r" if "NewDownloader ob \<in> set rest" for ob
    using that nl [of "NewDownloader ob"] by (auto simp: rest_def split: option.splits)
  have kept: "deref (fst (main_debug h r :: heap \<times> ('t, 'r) action list)) r = deref h r"
    by (rule main_debug_keeps [OF prod.collapse [symmetric] cf(1) cf(1)])
  have censored: "?printed ''user'' = Some (Str ''<censored>'')"
    "?printed ''password'' = Some (Str ''<censored>'')"
    by (simp_all add: censor_def map_add_def)
  have others: "\<forall>k. k \<noteq> ''user'' \<and> k \<noteq> ''password'' \<longrightarrow> ?printed k = deref h r k"
    by (simp add: censor_def map_add_def)
  have indep: "\<exists>rest'. fst (main (c\<lparr>user_opt := u, password_opt := p\<rparr>) env' sched')
      = Dump ?printed # rest'" for u p and env' :: "('t1, 'r1) environment" and sched'
  proof -
    let ?c' = "c\<lparr>user_opt := u, password_opt := p\<rparr>"
    from dump_independent [OF conf, where u = u and p = p and tu' = "typed_user env'"
        and tp' = "typed_password env'"]
    obtain h' r' where
      conf': "getConfiguration ?c' (typed_user env') (typed_password env') [] = (h', Inr r')"
      and same: "deref h' r' ++ censor = ?printed"
      by blast
    have "debug_opt ?c'" using debug by simp
    from main_dump_first [OF conf' this, of sched'] same show ?thesis by simp
  qed
  have real: "\<forall>ob. NewDownloader ob \<in> set rest \<longrightarrow>
                ob ''user'' = Some (Str (given_or_typed (user_opt c) (typed_user env)))
              \<and> ob ''password'' = Some (Str (given_or_typed (password_opt c) (typed_password env)))"
    using used cf(5,6) by auto
  show ?thesis
  proof (rule exI [of _ ?printed], rule exI [of _ rest], intro conjI)
    show "fst (main c env sched) = Dump ?printed # rest" by (rule run)
    show "?printed = deref h r ++ censor" by (rule refl)
    show "?printed ''user'' = Some (Str ''<censored>'')" by (rule censored)
    show "?printed ''password'' = Some (Str ''<censored>'')" by (rule censored)
    show "\<forall>k. k \<noteq> ''user'' \<and> k \<noteq> ''password'' \<longrightarrow> ?printed k = deref h r k" by (rule others)
    show "\<forall>u p (env' :: ('t1, 'r1) environment) sched'. \<exists>rest'.
        fst (main (c\<lparr>user_opt := u, password_opt := p\<rparr>) env' sched') = Dump ?printed # rest'"
      using indep by blast
    show "\<forall>ob. Dump ob \<notin> set rest" using nodump by blast
    show "\<forall>ob. NewDownloader ob \<in> set rest \<longrightarrow>
                ob ''user'' = Some (Str (given_or_typed (user_opt c) (typed_user env)))
              \<and> ob ''password'' = Some (Str (given_or_typed (password_opt c) (typed_password env)))"
      by (rule real)
    show "deref (fst (main_debug h r :: heap \<times> ('t, 'r) action list)) r = deref h r"
      by (rule kept)
  qed
qed

theorem debug_dump_censored_witness:
  "\<exists>printed rest rest'.
     fst (main c10 \<lparr>typed_user = ''x'', typed_password = ''secret'',
           puppeteer_launch = None, login = (\<lambda>k. Inr ()),
           getDownloadTasks = (\<lambda>k. Inr ([] :: string list)),
           performDownload = (\<lambda>pos t k. Inr t), reportResults = (\<lambda>rs. None),
           browser_close = None\<rparr> []) = Dump printed # rest
   \<and> fst (main (c10\<lparr>user_opt := Some ''bob@example.org'', password_opt := Some ''hunter2''\<rparr>)
           e9 []) = Dump printed # rest'
   \<and> printed ''user'' = Some (Str ''<censored>'')
   \<and> printed ''password'' = Some (Str ''<censored>'')
   \<and> printed ''format'' = Some (Str ''png'')
   \<and> printed ''courseUrl'' = Some (Str ''https://courses.edx.org/courses/X/course/'')
   \<and> (\<exists>ob. NewDownloader ob \<in> set rest
          \<and> ob ''user'' = Some (Str ''ann@example.org'') \<and> ob ''password'' = Some (Str ''secret''))"
proof -
  let ?env = "\<lparr>typed_user = ''x'', typed_password = ''secret'',
           puppeteer_launch = None, login = (\<lambda>k. Inr ()),
           getDownloadTasks = (\<lambda>k. Inr ([] :: string list)),
           performDownload = (\<lambda>pos t k. Inr t), reportResults = (\<lambda>rs. None),
           browser_close = None\<rparr> :: (string, string) environment"
  have "\<exists>h r. getConfiguration c10 (typed_user ?env) (typed_password ?env) [] = (h, Inr r)"
    by (rule getConfiguration_accepts [OF _ _ course_url_X]) (simp_all add: c10_def)
  then obtain h r where
    conf: "getConfiguration c10 (typed_user ?env) (typed_password ?env) [] = (h, Inr r)"
    by blast
  have debug: "debug_opt c10" by (simp add: c10_def)
  from debug_dump_censored [OF conf debug, of "[]"] obtain printed rest where
    run: "fst (main c10 ?env []) = Dump printed # rest"
    and p: "printed ''user'' = Some (Str ''<censored>'')" "printed ''password'' = Some (Str ''<censored>'')"
    and others: "\<forall>k. k \<noteq> ''user'' \<and> k \<noteq> ''password'' \<longrightarrow> printed k = deref h r k"
    and indep: "\<forall>u p (env' :: (string, string) environment) sched'. \<exists>rest'.
        fst (main (c10\<lparr>user_opt := u, password_opt := p\<rparr>) env' sched') = Dump printed # rest'"
    and used: "\<forall>ob. NewDownloader ob \<in> set rest \<longrightarrow>
                ob ''user'' = Some (Str (given_or_typed (user_opt c10) (typed_user ?env)))
              \<and> ob ''password'' = Some (Str (given_or_typed (password_opt c10) (typed_password ?env)))"
    by (elim exE conjE) (rule that)
  from indep [rule_format, where u = "Some ''bob@example.org''" and p = "Some ''hunter2''"
      and env' = e9 and sched' = "[]"]
  obtain rest' where
    run': "fst (main (c10\<lparr>user_opt := Some ''bob@example.org'', password_opt := Some ''hunter2''\<rparr>)
             e9 []) = Dump printed # rest'"
    by (elim exE) (rule that)
  from getConfiguration_Inr_heap [OF conf] obtain opts url where
    opts: "program_opts c10 = Inr opts" and url: "positional c10 = [url]" and r: "r = 2" and
    h: "h = [opts, Map.empty,
         fill_in (fill_in (opts(''courseUrl'' \<mapsto> Str url)) ''user'' (typed_user ?env))
           ''password'' (typed_password ?env)]"
    by blast
  have d: "deref h r ''format'' = opts ''format''" "deref h r ''courseUrl'' = Some (Str url)"
    by (simp_all add: h r deref_def fill_in_other)
  have "opts ''format'' = Some (Str ''png'')"
    using opts by (auto simp: program_opts_def c10_def parseFormat_def)
  moreover have "url = ''https://courses.edx.org/courses/X/course/''"
    using url by (simp add: c10_def)
  ultimately have keys: "printed ''format'' = Some (Str ''png'')"
    "printed ''courseUrl'' = Some (Str ''https://courses.edx.org/courses/X/course/'')"
    using others d by simp_all
  have "NewDownloader (deref h r) \<in> set (fst (main c10 ?env []))"
    by (simp add: main_Inr [OF conf])
  with run have nd: "NewDownloader (deref h r) \<in> set rest" by simp
  from used [rule_format, OF nd] have creds: "deref h r ''user'' = Some (Str ''ann@example.org'')"
    "deref h r ''password'' = Some (Str ''secret'')"
    by (simp_all add: given_or_typed_def c10_def)
  from nd creds have ex: "\<exists>ob. NewDownloader ob \<in> set rest
          \<and> ob ''user'' = Some (Str ''ann@example.org'') \<and> ob ''password'' = Some (Str ''secret'')"
    by (intro exI [of _ "deref h r"]) simp
  show ?thesis
    by (intro exI [of _ printed] exI [of _ rest] exI [of _ rest'] conjI run run' p keys ex)
qed

section \<open>Retried phases\<close>

text \<open>
  C9. When the first call of the login fails and the second succeeds (the retry budget being
  at least 1, so that a second call is made), the run calls the login exactly twice, waits
  exactly one backoff delay, of 5000 ms, between the two calls, and calls the task discovery
  only after the second login call: nothing but the dump, the launch and the construction of
  the downloader precedes the first login call, and no login call follows the discovery.
\<close>

theorem login_second_attempt:
  assumes conf: "getConfiguration c (typed_user env) (typed_password env) [] = (h, Inr r)"
    and retries: "or_default (retries_opt c) (Fin 3) = Fin R" "1 \<le> R"
    and launch: "puppeteer_launch env = None"
    and first: "login env 0 = Inl e"
    and second: "login env 1 = Inr ()"
  shows "\<exists>pre post.
           fst (main c env sched) = pre @ [Login, Wait 5000, Login] @ GetDownloadTasks # post
         \<and> (\<forall>a \<in> set pre. startup_act a)
         \<and> Login \<notin> set post
         \<and> length (filter (\<lambda>a. a = Login) (fst (main c env sched))) = 2"
proof -
  let ?cfg = "backoffConfig (Fin R)"
  let ?N = "or_default (concurrency_opt c) (Fin 4)"
  let ?dump = "(if debug_opt c then [Dump (deref h r ++ censor)] else []) :: ('a, 'b) action list"
  let ?pre = "?dump @ [Launch, NewDownloader (deref h r)]"
  have lp: "login_phase ?cfg env = ([Login, Wait 5000, Login], Inr ())"
    unfolding login_phase_def
    using first second backoffConfig_first_delay [OF retries(2)] by (rule retryBackoff_second)
  obtain post where post: "fst (main_tasks ?cfg ?N env sched) = GetDownloadTasks # post"
    using main_tasks_first by blast
  have nl: "Login \<notin> set post"
    using main_tasks_no_Login [of ?cfg ?N env sched] post by simp
  have ml: "fst (main_login ?cfg ?N env sched) = [Login, Wait 5000, Login] @ GetDownloadTasks # post"
    using main_login_done [of ?cfg env "()" ?N sched] lp post by simp
  have run: "fst (main c env sched) = ?pre @ [Login, Wait 5000, Login] @ GetDownloadTasks # post"
    by (simp add: main_Inr [OF conf] launch retries(1) ml)
  have pre: "\<forall>a \<in> set ?pre. startup_act a" by simp
  have "filter (\<lambda>a. a = Login) post = []"
    using nl by (auto simp: filter_empty_conv)
  then have cnt: "length (filter (\<lambda>a. a = Login) (fst (main c env sched))) = 2"
    by (simp add: run)
  show ?thesis
    by (rule exI [of _ ?pre], rule exI [of _ post]) (use run pre nl cnt in simp)
qed

theorem login_second_attempt_witness:
  "\<exists>pre post.
     fst (main c9 e9 []) = pre @ [Login, Wait 5000, Login] @ GetDownloadTasks # post
   \<and> Login \<notin> set post
   \<and> length (filter (\<lambda>a. a = Login) (fst (main c9 e9 []))) = 2"
proof -
  have "\<exists>h r. getConfiguration c9 (typed_user e9) (typed_password e9) [] = (h, Inr r)"
    by (rule getConfiguration_accepts [OF _ _ course_url_X]) (simp_all add: c9_def)
  then obtain h r where
    conf: "getConfiguration c9 (typed_user e9) (typed_password e9) [] = (h, Inr r)"
    by blast
  have "or_default (retries_opt c9) (Fin 3) = Fin 3" and "(1::int) \<le> 3"
    and "puppeteer_launch e9 = None" and "login e9 0 = Inl ''net::ERR_TIMED_OUT''"
    and "login e9 1 = Inr ()"
    by (simp_all add: c9_def e9_def or_default_def)
  from login_second_attempt [OF conf this, of "[]"] show ?thesis by blast
qed

text \<open>
  C4. When the task discovery fails on each of its \<open>maxRetries + 1\<close> attempts, the run ends
  with exit status 1, no download is ever called and nothing is reported; where the
  discovery is reached at all it is called exactly \<open>maxRetries + 1\<close> times, and the run then
  ends with closing the browser.
\<close>

theorem discovery_exhausted_aborts:
  assumes conf: "getConfiguration c (typed_user env) (typed_password env) [] = (h, Inr r)"
    and retries: "or_default (retries_opt c) (Fin 3) = Fin R" "0 \<le> R"
    and fails: "\<forall>k. int k \<le> R \<longrightarrow> (\<exists>e. getDownloadTasks env k = Inl e)"
  shows "snd (main c env sched) = Exit 1
       \<and> (\<forall>t. PerformDownload t \<notin> set (fst (main c env sched)))
       \<and> (\<forall>rs. ReportResults rs \<notin> set (fst (main c env sched)))
       \<and> (GetDownloadTasks \<in> set (fst (main c env sched)) \<longrightarrow>
            length (filter (\<lambda>a. a = GetDownloadTasks) (fst (main c env sched))) = nat R + 1
          \<and> last (fst (main c env sched)) = Close)"
proof -
  let ?cfg = "backoffConfig (Fin R)"
  let ?N = "or_default (concurrency_opt c) (Fin 4)"
  let ?dump = "(if debug_opt c then [Dump (deref h r ++ censor)] else []) :: ('a, 'b) action list"
  let ?L = "fst (login_phase ?cfg env)"
  let ?D = "fst (discovery_phase ?cfg env)"
  have "(\<exists>e. snd (retryBackoff ?cfg (GetDownloadTasks :: ('a, 'b) action) (getDownloadTasks env) 0) = Inl e)
       \<and> length (filter (\<lambda>a. a = GetDownloadTasks)
            (fst (retryBackoff ?cfg (GetDownloadTasks :: ('a, 'b) action) (getDownloadTasks env) 0)))
           = nat R + 1 - 0"
    using fails retries(2) by (intro retryBackoff_all_fail) (simp_all add: backoffConfig_def)
  then obtain e where de: "snd (discovery_phase ?cfg env) = Inl e"
    and dn: "length (filter (\<lambda>a. a = GetDownloadTasks) ?D) = nat R + 1"
    by (auto simp: discovery_phase_def)
  have mt: "main_tasks ?cfg ?N env sched = (?D @ [ConsoleError e, Close], Exit 1)"
    using de by (rule main_tasks_failed)
  have dumps: "PerformDownload t \<notin> set ?dump" "ReportResults rs \<notin> set ?dump"
    "GetDownloadTasks \<notin> set ?dump" "filter (\<lambda>a. a = GetDownloadTasks) ?dump = []" for t rs
    by simp_all
  show ?thesis
  proof (cases "puppeteer_launch env")
    case (Some e')
    have run: "main c env sched = (?dump @ [Launch, ConsoleError e'], Exit 1)"
      by (simp add: main_Inr [OF conf] Some)
    show ?thesis unfolding run using dumps by simp
  next
    case None
    show ?thesis
    proof (cases "snd (login_phase ?cfg env)")
      case (Inl e')
      have ml: "main_login ?cfg ?N env sched = (?L @ [ConsoleError e', Close], Exit 1)"
        using Inl by (rule main_login_failed)
      have run: "main c env sched
          = (?dump @ Launch # NewDownloader (deref h r) # ?L @ [ConsoleError e', Close], Exit 1)"
        by (simp add: main_Inr [OF conf] None retries(1) ml)
      show ?thesis unfolding run using dumps login_phase_only [where cfg = ?cfg and env = env] by simp
    next
      case (Inr u)
      have ml: "main_login ?cfg ?N env sched = (?L @ ?D @ [ConsoleError e, Close], Exit 1)"
        using main_login_done [OF Inr, of ?N sched] mt by simp
      have run: "main c env sched
          = (?dump @ Launch # NewDownloader (deref h r) # ?L @ ?D @ [ConsoleError e, Close], Exit 1)"
        by (simp add: main_Inr [OF conf] None retries(1) ml)
      show ?thesis
        unfolding run
        using dumps login_phase_only [where cfg = ?cfg and env = env] discovery_phase_only [where cfg = ?cfg and env = env] dn
        by simp
    qed
  qed
qed

theorem discovery_exhausted_aborts_witness:
  "snd (main c4 e4 []) = Exit 1
   \<and> length (filter (\<lambda>a. a = GetDownloadTasks) (fst (main c4 e4 []))) = 3
   \<and> last (fst (main c4 e4 [])) = Close
   \<and> (\<forall>t. PerformDownload t \<notin> set (fst (main c4 e4 [])))
   \<and> (\<forall>rs. ReportResults rs \<notin> set (fst (main c4 e4 [])))"
proof -
  have "\<exists>h r. getConfiguration c4 (typed_user e4) (typed_password e4) [] = (h, Inr r)"
    by (rule getConfiguration_accepts [OF _ _ course_url_X]) (simp_all add: c4_def)
  then obtain h r where
    conf: "getConfiguration c4 (typed_user e4) (typed_password e4) [] = (h, Inr r)"
    by blast
  have retries: "or_default (retries_opt c4) (Fin 3) = Fin 2" and "(0::int) \<le> 2"
    and "\<forall>k. int k \<le> 2 \<longrightarrow> (\<exists>e. getDownloadTasks e4 k = Inl e)"
    by (simp_all add: c4_def e4_def or_default_def)
  note t = discovery_exhausted_aborts [OF conf this, of "[]"]
  have "snd (login_phase (backoffConfig (or_default (retries_opt c4) (Fin 3))) e4) = Inr ()"
    by (simp add: login_phase_at_once e4_def)
  from main_reaches_discovery [OF conf _ this]
  have "GetDownloadTasks \<in> set (fst (main c4 e4 []))"
    by (simp add: e4_def)
  with t show ?thesis by simp
qed

section \<open>The download phase\<close>

text \<open>
  C2. For a concurrency limit \<open>n\<close> of at least 1, any task array (the empty one, one shorter
  than \<open>n\<close>, one longer) and any order in which the downloads settle. Every state of the
  download phase, while the tasks are handed over and after each event, has at most \<open>n\<close>
  operations in flight, each with its own retry index, and whenever a task is waiting in
  the buffer exactly \<open>n\<close> are in flight. Once the tasks are handed over, \<open>min n (length tasks)\<close>
  downloads are in flight, and the phase runs until none is. From one state to the next no
  task is lost unless the phase fails; and when a download completes with a result, the
  state right after it has the same operations in flight but the completed one, and, if a
  task was waiting, the first waiting task has left the buffer and is in flight with retry
  index 0, its download called: the freed slot is refilled in the same step.
\<close>

theorem bounded_concurrency:
  fixes env :: "('t, 'r) environment"
  assumes "1 \<le> n"
  shows "(\<forall>p \<in> set (dispatch (Fin n) (enumerate 0 tasks) empty_pool)
               \<union> set (pool_states cfg (Fin n) env sched (subscribe (Fin n) tasks)).
           int (length (active p)) \<le> n \<and> (buffer p \<noteq> [] \<longrightarrow> int (length (active p)) = n))
       \<and> length (active (subscribe (Fin n) tasks :: ('t, 'r) pool)) = min (nat n) (length tasks)
       \<and> active (last (pool_states cfg (Fin n) env sched (subscribe (Fin n) tasks))) = []
       \<and> successively
           (\<lambda>p q. (failure q = None \<longrightarrow>
                      length (collected q) + length (active q) + length (buffer q)
                        = length (collected p) + length (active p) + length (buffer p))
                \<and> (\<forall>r. collected q = collected p @ [r] \<longrightarrow>
                      (\<exists>i < length (active p).
                         case buffer p of
                           [] \<Rightarrow> buffer q = [] \<and> active q = take i (active p) @ drop (Suc i) (active p)
                         | job # rest \<Rightarrow>
                             buffer q = rest
                           \<and> active q = take i (active p) @ drop (Suc i) (active p)
                                          @ [Running (fst job) (snd job) 0]
                           \<and> acts q = acts p @ [PerformDownload (snd job)])))
           (pool_states cfg (Fin n) env sched (subscribe (Fin n) tasks))"
proof (intro conjI)
  show "\<forall>p \<in> set (dispatch (Fin n) (enumerate 0 tasks) empty_pool)
               \<union> set (pool_states cfg (Fin n) env sched (subscribe (Fin n) tasks)).
           int (length (active p)) \<le> n \<and> (buffer p \<noteq> [] \<longrightarrow> int (length (active p)) = n)"
  proof
    fix p :: "('t, 'r) pool"
    assume p: "p \<in> set (dispatch (Fin n) (enumerate 0 tasks) empty_pool)
                 \<union> set (pool_states cfg (Fin n) env sched (subscribe (Fin n) tasks))"
    have "0 \<le> n" using assms by simp
    then have "\<forall>q \<in> set (dispatch (Fin n) (enumerate 0 tasks) (empty_pool :: ('t, 'r) pool)). window n q"
      by (rule window_dispatch)
    moreover have "\<forall>q \<in> set (pool_states cfg (Fin n) env sched (subscribe (Fin n) tasks)). window n q"
      using assms by (rule window_pool_states)
    ultimately have "window n p" using p by blast
    then show "int (length (active p)) \<le> n \<and> (buffer p \<noteq> [] \<longrightarrow> int (length (active p)) = n)"
      by (auto simp: window_def)
  qed
next
  show "length (active (subscribe (Fin n) tasks :: ('t, 'r) pool)) = min (nat n) (length tasks)"
    using assms by (intro subscribe_active) simp
next
  show "active (last (pool_states cfg (Fin n) env sched (subscribe (Fin n) tasks))) = []"
    by (rule pool_states_last_idle)
next
  show "successively
           (\<lambda>p q. (failure q = None \<longrightarrow>
                      length (collected q) + length (active q) + length (buffer q)
                        = length (collected p) + length (active p) + length (buffer p))
                \<and> (\<forall>r. collected q = collected p @ [r] \<longrightarrow>
                      (\<exists>i < length (active p).
                         case buffer p of
                           [] \<Rightarrow> buffer q = [] \<and> active q = take i (active p) @ drop (Suc i) (active p)
                         | job # rest \<Rightarrow>
                             buffer q = rest
                           \<and> active q = take i (active p) @ drop (Suc i) (active p)
                                          @ [Running (fst job) (snd job) 0]
                           \<and> acts q = acts p @ [PerformDownload (snd job)])))
           (pool_states cfg (Fin n) env sched (subscribe (Fin n) tasks))"
  proof (rule pool_states_successively [where P = "window n"])
    show "window n (subscribe (Fin n) tasks :: ('t, 'r) pool)"
      using assms by (intro window_subscribe) simp
  next
    fix choice and q :: "('t, 'r) pool"
    assume w: "window n q" and a: "active q \<noteq> []"
    let ?q' = "pool_step cfg (Fin n) env choice q"
    have "window n ?q'" using w a assms by (rule window_pool_step)
    moreover have "failure ?q' = None \<longrightarrow>
        length (collected ?q') + length (active ?q') + length (buffer ?q')
          = length (collected q) + length (active q) + length (buffer q)"
      using population_pool_step [OF a, of cfg "Fin n" env choice] by (simp add: population_def)
    moreover have "\<forall>r. collected ?q' = collected q @ [r] \<longrightarrow>
        (\<exists>i < length (active q).
           case buffer q of
             [] \<Rightarrow> buffer ?q' = [] \<and> active ?q' = take i (active q) @ drop (Suc i) (active q)
           | job # rest \<Rightarrow>
               buffer ?q' = rest
             \<and> active ?q' = take i (active q) @ drop (Suc i) (active q)
                            @ [Running (fst job) (snd job) 0]
             \<and> acts ?q' = acts q @ [PerformDownload (snd job)])"
      using pool_step_completion [OF w a assms] by blast
    ultimately show "window n ?q' \<and>
        ((failure ?q' = None \<longrightarrow>
            length (collected ?q') + length (active ?q') + length (buffer ?q')
              = length (collected q) + length (active q) + length (buffer q))
         \<and> (\<forall>r. collected ?q' = collected q @ [r] \<longrightarrow>
              (\<exists>i < length (active q).
                 case buffer q of
                   [] \<Rightarrow> buffer ?q' = [] \<and> active ?q' = take i (active q) @ drop (Suc i) (active q)
                 | job # rest \<Rightarrow>
                     buffer ?q' = rest
                   \<and> active ?q' = take i (active q) @ drop (Suc i) (active q)
                                  @ [Running (fst job) (snd job) 0]
                   \<and> acts ?q' = acts q @ [PerformDownload (snd job)])))"
      by blast
  qed
qed

theorem bounded_concurrency_witness:
  "(1::int) \<le> 2
   \<and> (\<exists>s0 s1 rest.
        pool_states (backoffConfig (Fin 3)) (Fin 2) e2 [] (subscribe (Fin 2) [''a'', ''b'', ''c''])
          = s0 # s1 # rest
      \<and> active s0 = [Running 0 ''a'' 0, Running 1 ''b'' 0] \<and> buffer s0 = [(2, ''c'')]
      \<and> collected s0 = [] \<and> collected s1 = [''a.pdf'']
      \<and> active s1 = [Running 1 ''b'' 0, Running 2 ''c'' 0] \<and> buffer s1 = []
      \<and> acts s1 = [PerformDownload ''a'', PerformDownload ''b'', PerformDownload ''c''])"
proof -
  let ?cfg = "backoffConfig (Fin 3)"
  let ?s0 = "\<lparr>buffer = [(2, ''c'')], active = [Running 0 ''a'' 0, Running 1 ''b'' 0],
               collected = [], failure = None,
               acts = [PerformDownload ''a'', PerformDownload ''b'']\<rparr> :: (string, string) pool"
  let ?s1 = "pool_step ?cfg (Fin 2) e2 0 ?s0"
  have one: "(1::int) \<le> 2" by simp
  have s0: "subscribe (Fin 2) [''a'', ''b'', ''c''] = ?s0"
    by (simp add: subscribe_def empty_pool_def mm_next_def Let_def)
  have c1: "collected ?s1 = collected ?s0 @ [''a.pdf'']"
    by (simp add: pool_step_def mm_next_def e2_def Let_def)
  obtain rest where rest: "pool_states ?cfg (Fin 2) e2 [] ?s1 = ?s1 # rest"
    using pool_states_first by blast
  have ne: "active ?s0 \<noteq> []" by simp
  have states: "pool_states ?cfg (Fin 2) e2 [] (subscribe (Fin 2) [''a'', ''b'', ''c''])
      = ?s0 # ?s1 # rest"
    unfolding s0 pool_states_step [OF ne] by (simp only: list.case list.sel rest)
  note t = bounded_concurrency [OF one, of "[''a'', ''b'', ''c'']" ?cfg e2 "[]",
      THEN conjunct2, THEN conjunct2, THEN conjunct2]
  from t c1 obtain i where i: "i < length (active ?s0)"
    and b: "buffer ?s1 = []"
    and a: "active ?s1 = take i (active ?s0) @ drop (Suc i) (active ?s0) @ [Running 2 ''c'' 0]"
    and ac: "acts ?s1 = acts ?s0 @ [PerformDownload ''c'']"
    unfolding states by auto
  have "active ?s1 = [Running 1 ''b'' 0, Running 2 ''c'' 0]"
    by (simp add: pool_step_def mm_next_def e2_def Let_def)
  with states b ac c1 one show ?thesis by simp
qed

section \<open>The results of the download phase\<close>

text \<open>
  C1, as the code has it. For a concurrency limit of at least 1, every task array (the
  empty one too) and every order in which the downloads settle: when every task has a
  successful call within its retry budget, the download phase resolves with exactly one
  result per task and these results are reported. The results are those of the tasks
  themselves: there is a permutation \<open>ps\<close> of the positions of the task array such that
  the \<open>i\<close>-th result is the outcome of the first successful call of the download of the
  task at position \<open>ps ! i\<close>, all earlier calls for that task having failed. A task that
  exhausts its retries is not recorded as a failed result: when some task fails on every
  call its budget allows, the merged pipeline fails, no result array is produced or
  reported, and the run ends in the catch block with exit status 1.
\<close>

theorem download_phase_results:
  assumes "1 \<le> n"
  shows "((\<forall>pos < length tasks. \<exists>k \<le> budget (maxRetries cfg).
             \<exists>res. performDownload env pos (tasks ! pos) k = Inr res)
          \<longrightarrow> (\<exists>results ps.
                 settled (final_pool cfg (Fin n) env sched tasks) = Some (Inr results)
               \<and> length results = length tasks
               \<and> mset ps = mset [0..<length tasks]
               \<and> list_all2
                   (\<lambda>pos res. \<exists>k \<le> budget (maxRetries cfg).
                        performDownload env pos (tasks ! pos) k = Inr res
                      \<and> (\<forall>j < k. \<exists>e. performDownload env pos (tasks ! pos) j = Inl e))
                   ps results
               \<and> ReportResults results \<in> set (fst (main_downloads cfg (Fin n) env sched tasks))))
       \<and> ((\<exists>pos < length tasks. \<forall>k \<le> budget (maxRetries cfg).
             \<exists>e. performDownload env pos (tasks ! pos) k = Inl e)
          \<longrightarrow> (\<exists>e. settled (final_pool cfg (Fin n) env sched tasks) = Some (Inl e))
              \<and> snd (main_downloads cfg (Fin n) env sched tasks) = Exit 1
              \<and> (\<forall>rs. ReportResults rs \<notin> set (fst (main_downloads cfg (Fin n) env sched tasks))))"
proof (intro conjI impI)
  assume "\<forall>pos < length tasks. \<exists>k \<le> budget (maxRetries cfg).
             \<exists>res. performDownload env pos (tasks ! pos) k = Inr res"
  with assms obtain results where
    r: "settled (final_pool cfg (Fin n) env sched tasks) = Some (Inr results)"
    and len: "length results = length tasks"
    using downloads_all_succeed [of n tasks cfg env sched] by blast
  from settled_results_accounted [OF r] obtain ps where
    ps: "mset ps = mset [0..<length tasks]"
    and firsts: "list_all2 (first_success cfg env tasks) ps results"
    by blast
  have firsts': "list_all2
       (\<lambda>pos res. \<exists>k \<le> budget (maxRetries cfg).
            performDownload env pos (tasks ! pos) k = Inr res
          \<and> (\<forall>j < k. \<exists>e. performDownload env pos (tasks ! pos) j = Inl e))
       ps results"
    using firsts by (simp add: first_success_def [abs_def])
  obtain rest where "fst (main_report env results) = ReportResults results # rest"
    using main_report_first by blast
  then have "ReportResults results \<in> set (fst (main_downloads cfg (Fin n) env sched tasks))"
    by (simp add: main_downloads_done [OF r])
  with r len ps firsts' show "\<exists>results ps.
                 settled (final_pool cfg (Fin n) env sched tasks) = Some (Inr results)
               \<and> length results = length tasks
               \<and> mset ps = mset [0..<length tasks]
               \<and> list_all2
                   (\<lambda>pos res. \<exists>k \<le> budget (maxRetries cfg).
                        performDownload env pos (tasks ! pos) k = Inr res
                      \<and> (\<forall>j < k. \<exists>e. performDownload env pos (tasks ! pos) j = Inl e))
                   ps results
               \<and> ReportResults results \<in> set (fst (main_downloads cfg (Fin n) env sched tasks))"
    by blast
next
  assume "\<exists>pos < length tasks. \<forall>k \<le> budget (maxRetries cfg).
             \<exists>e. performDownload env pos (tasks ! pos) k = Inl e"
  with assms obtain e where
    e: "settled (final_pool cfg (Fin n) env sched tasks) = Some (Inl e)"
    using downloads_one_exhausted [of n _ tasks cfg env sched] by blast
  then show "\<exists>e. settled (final_pool cfg (Fin n) env sched tasks) = Some (Inl e)" by blast
  show "snd (main_downloads cfg (Fin n) env sched tasks) = Exit 1"
    by (simp add: main_downloads_failed [OF e])
  have "\<not> download_act (ReportResults rs :: ('a, 'b) action)" for rs by simp
  then have "ReportResults rs \<notin> set (acts (final_pool cfg (Fin n) env sched tasks))" for rs
    using final_pool_download_acts [of cfg "Fin n" env sched tasks] by blast
  then show "\<forall>rs. ReportResults rs \<notin> set (fst (main_downloads cfg (Fin n) env sched tasks))"
    by (simp add: main_downloads_failed [OF e])
qed

theorem download_phase_results_counterexample:
  "filter (\<lambda>a. \<not> startup_act a) (fst (main c1 e1 []))
     = [Login, GetDownloadTasks, PerformDownload ''week1'', PerformDownload ''week2'',
        Wait 5000, PerformDownload ''week2'', ConsoleError ''timeout'', Close]
   \<and> snd (main c1 e1 []) = Exit 1
   \<and> settled (final_pool (backoffConfig (Fin 1)) (Fin 4) e1 [] [''week1'', ''week2''])
       = Some (Inl ''timeout'')"
proof -
  have "\<exists>h r. getConfiguration c1 (typed_user e1) (typed_password e1) [] = (h, Inr r)"
    by (rule getConfiguration_accepts [OF _ _ course_url_X]) (simp_all add: c1_def)
  then obtain h r where
    conf: "getConfiguration c1 (typed_user e1) (typed_password e1) [] = (h, Inr r)"
    by blast
  have opts: "or_default (retries_opt c1) (Fin 3) = Fin 1"
    "or_default (concurrency_opt c1) (Fin 4) = Fin 4" "\<not> debug_opt c1"
    "puppeteer_launch e1 = None"
    by (simp_all add: c1_def e1_def or_default_def)
  have "main c1 e1 []
      = (Launch # NewDownloader (deref h r) # fst (main_login (backoffConfig (Fin 1)) (Fin 4) e1 []),
         snd (main_login (backoffConfig (Fin 1)) (Fin 4) e1 []))"
    by (simp add: main_Inr [OF conf] opts)
  then show ?thesis by (simp add: e1_login e1_pool)
qed

theorem download_phase_results_witness:
  "settled (final_pool (backoffConfig (Fin 3)) (Fin 2) w1 [1, 1, 1] [''week1'', ''week2''])
     = Some (Inr [''week2.pdf'', ''week1.pdf''])
   \<and> (\<exists>ps. mset ps = mset [0..<2]
         \<and> list_all2
             (\<lambda>pos res. \<exists>k \<le> 3.
                  performDownload w1 pos ([''week1'', ''week2''] ! pos) k = Inr res
                \<and> (\<forall>j < k. \<exists>e. performDownload w1 pos ([''week1'', ''week2''] ! pos) j = Inl e))
             ps [''week2.pdf'', ''week1.pdf''])
   \<and> ReportResults [''week2.pdf'', ''week1.pdf'']
       \<in> set (fst (main_downloads (backoffConfig (Fin 3)) (Fin 2) w1 [1, 1, 1] [''week1'', ''week2'']))
   \<and> snd (main_downloads (backoffConfig (Fin 1)) (Fin 4) e1 [] [''week1'', ''week2'']) = Exit 1"
proof -
  let ?cfg = "backoffConfig (Fin 3)"
  let ?tasks = "[''week1'', ''week2'']"
  have two: "(1::int) \<le> 2" and four: "(1::int) \<le> 4" by simp_all
  have b: "budget (maxRetries ?cfg) = 3" by (simp add: backoffConfig_def)
  have ok: "\<forall>pos < length ?tasks. \<exists>k \<le> budget (maxRetries ?cfg).
      \<exists>res. performDownload w1 pos (?tasks ! pos) k = Inr res"
    by (intro allI impI exI [of _ 1]) (simp add: backoffConfig_def w1_def)
  have bad: "\<exists>pos < length ?tasks. \<forall>k \<le> budget (maxRetries (backoffConfig (Fin 1))).
      \<exists>e. performDownload e1 pos (?tasks ! pos) k = Inl e"
    by (intro exI [of _ 1]) (simp add: e1_def)
  from download_phase_results [OF two, of ?tasks ?cfg w1 "[1, 1, 1]", THEN conjunct1, THEN mp, OF ok]
  obtain results ps where
    r: "settled (final_pool ?cfg (Fin 2) w1 [1, 1, 1] ?tasks) = Some (Inr results)"
    and ps: "mset ps = mset [0..<length ?tasks]"
    and firsts: "list_all2
          (\<lambda>pos res. \<exists>k \<le> budget (maxRetries ?cfg).
               performDownload w1 pos (?tasks ! pos) k = Inr res
             \<and> (\<forall>j < k. \<exists>e. performDownload w1 pos (?tasks ! pos) j = Inl e))
          ps results"
    and rep: "ReportResults results \<in> set (fst (main_downloads ?cfg (Fin 2) w1 [1, 1, 1] ?tasks))"
    by blast
  from r have results: "results = [''week2.pdf'', ''week1.pdf'']" unfolding w1_pool by simp
  have len: "length ?tasks = 2" by simp
  from download_phase_results [OF four, of ?tasks "backoffConfig (Fin 1)" e1 "[]",
      THEN conjunct2, THEN mp, OF bad]
  have "snd (main_downloads (backoffConfig (Fin 1)) (Fin 4) e1 [] ?tasks) = Exit 1"
    by simp
  with ps firsts rep show ?thesis
    unfolding results b len w1_pool by blast
qed

section \<open>The report\<close>

text \<open>
  C7, as the code has it. In every run the report is called at most once, and once it has
  been called nothing follows but the shutdown (closing the browser, and the error print
  when the report or the closing itself fails): no download, no wait, no retry of the
  report. In a run that reaches the download phase, the report is called, with the
  collected results, when the download phase resolves, that is when every task has
  succeeded; when the download phase fails because a task has exhausted its retries, the
  report is not called at all.
\<close>

theorem report_once:
  assumes cfg: "cfg = backoffConfig (or_default (retries_opt c) (Fin 3))"
    and N: "N = or_default (concurrency_opt c) (Fin 4)"
  shows "((\<forall>rs. ReportResults rs \<notin> set (fst (main c env sched)))
          \<or> (\<exists>pre rs post. fst (main c env sched) = pre @ ReportResults rs # post
               \<and> (\<forall>rs'. ReportResults rs' \<notin> set pre)
               \<and> (\<forall>a \<in> set post. a = Close \<or> (\<exists>e. a = ConsoleError e))))
       \<and> (\<forall>h r u tasks.
             getConfiguration c (typed_user env) (typed_password env) [] = (h, Inr r)
             \<and> puppeteer_launch env = None
             \<and> snd (login_phase cfg env) = Inr u \<and> snd (discovery_phase cfg env) = Inr tasks
           \<longrightarrow> (\<forall>rs. settled (final_pool cfg N env sched tasks) = Some (Inr rs)
                    \<longrightarrow> ReportResults rs \<in> set (fst (main c env sched)))
             \<and> (\<forall>e. settled (final_pool cfg N env sched tasks) = Some (Inl e)
                    \<longrightarrow> (\<forall>rs. ReportResults rs \<notin> set (fst (main c env sched)))))"
proof (intro conjI allI impI)
  show "(\<forall>rs. ReportResults rs \<notin> set (fst (main c env sched)))
          \<or> (\<exists>pre rs post. fst (main c env sched) = pre @ ReportResults rs # post
               \<and> (\<forall>rs'. ReportResults rs' \<notin> set pre)
               \<and> (\<forall>a \<in> set post. a = Close \<or> (\<exists>e. a = ConsoleError e)))"
    using main_report_then_shutdown [of c env sched]
    unfolding report_then_shutdown_def no_report_iff
    by (simp add: list_all_iff shutdown_act_iff)
next
  fix h r u tasks rs
  assume run: "getConfiguration c (typed_user env) (typed_password env) [] = (h, Inr r)
             \<and> puppeteer_launch env = None
             \<and> snd (login_phase cfg env) = Inr u \<and> snd (discovery_phase cfg env) = Inr tasks"
    and ok: "settled (final_pool cfg N env sched tasks) = Some (Inr rs)"
  obtain post where "fst (main_report env rs) = ReportResults rs # post"
    using main_report_first by blast
  then have "ReportResults rs \<in> set (fst (main_downloads cfg N env sched tasks))"
    by (simp add: main_downloads_done [OF ok])
  then have "ReportResults rs \<in> set (fst (main_login cfg N env sched))"
    using run by (simp add: main_login_done [of cfg env u] main_tasks_done [of cfg env tasks])
  then show "ReportResults rs \<in> set (fst (main c env sched))"
    using run by (simp add: main_Inr [of c env h r] cfg N)
next
  fix h r u tasks e rs
  assume run: "getConfiguration c (typed_user env) (typed_password env) [] = (h, Inr r)
             \<and> puppeteer_launch env = None
             \<and> snd (login_phase cfg env) = Inr u \<and> snd (discovery_phase cfg env) = Inr tasks"
    and bad: "settled (final_pool cfg N env sched tasks) = Some (Inl e)"
  have "ReportResults rs \<notin> set (acts (final_pool cfg N env sched tasks))"
    using final_pool_no_report [of cfg N env sched tasks] by (simp add: no_report_iff)
  then have "ReportResults rs \<notin> set (fst (main_downloads cfg N env sched tasks))"
    by (simp add: main_downloads_failed [OF bad])
  moreover have "ReportResults rs \<notin> set (fst (discovery_phase cfg env))"
    by (rule discovery_phase_only)
  moreover have "ReportResults rs \<notin> set (fst (login_phase cfg env))"
    by (rule login_phase_only)
  ultimately have "ReportResults rs \<notin> set (fst (main_login cfg N env sched))"
    using run by (simp add: main_login_done [of cfg env u] main_tasks_done [of cfg env tasks])
  then show "ReportResults rs \<notin> set (fst (main c env sched))"
    using run by (simp add: main_Inr [of c env h r] cfg N)
qed

theorem report_once_counterexample:
  "filter (\<lambda>a. \<not> startup_act a) (fst (main c7 e7 []))
     = [Login, GetDownloadTasks, PerformDownload ''week1'', ConsoleError ''timeout'', Close]
   \<and> filter report_act (fst (main c7 e7 [])) = []
   \<and> snd (main c7 e7 []) = Exit 1"
proof -
  obtain h r where
    conf: "getConfiguration c7 (typed_user e7) (typed_password e7) [] = (h, Inr r)"
    using c7_accepted by blast
  have ml: "main_login (backoffConfig (Fin 0)) (Fin 1) e7 []
      = ([Login, GetDownloadTasks, PerformDownload ''week1'', ConsoleError ''timeout'', Close], Exit 1)"
    by (simp add: run_simps e7_def)
  have "puppeteer_launch e7 = None" by (simp add: e7_def)
  then have "main c7 e7 []
      = (Launch # NewDownloader (deref h r) # fst (main_login (backoffConfig (Fin 0)) (Fin 1) e7 []),
         snd (main_login (backoffConfig (Fin 0)) (Fin 1) e7 []))"
    by (simp add: main_Inr [OF conf] c7_opts)
  then show ?thesis by (simp add: ml)
qed

theorem report_once_witness:
  "ReportResults [''week1.pdf''] \<in> set (fst (main c7 w7 []))
   \<and> (\<exists>pre rs post. fst (main c7 w7 []) = pre @ ReportResults rs # post
         \<and> (\<forall>rs'. ReportResults rs' \<notin> set pre)
         \<and> list_all (\<lambda>a. a = Close \<or> (\<exists>e. a = ConsoleError e)) post)"
proof -
  let ?cfg = "backoffConfig (or_default (retries_opt c7) (Fin 3))"
  let ?N = "or_default (concurrency_opt c7) (Fin 4)"
  obtain h r where
    conf: "getConfiguration c7 (typed_user w7) (typed_password w7) [] = (h, Inr r)"
    using c7_accepted by blast
  note t = report_once [OF refl refl, of c7 w7 "[]"]
  have phases: "puppeteer_launch w7 = None" "snd (login_phase ?cfg w7) = Inr ()"
    "snd (discovery_phase ?cfg w7) = Inr [''week1'']"
    by (simp_all add: login_phase_def discovery_phase_def retryBackoff.simps w7_def)
  have ok: "settled (final_pool ?cfg ?N w7 [] [''week1'']) = Some (Inr [''week1.pdf''])"
    unfolding c7_opts by (simp add: run_simps w7_def)
  have "ReportResults [''week1.pdf''] \<in> set (fst (main c7 w7 []))"
    using t [THEN conjunct2, rule_format, of h r "()" "[''week1'']", THEN conjunct1, rule_format,
        of "[''week1.pdf'']"] conf phases ok
    by simp
  with t [THEN conjunct1] show ?thesis by (auto simp: list_all_iff)
qed

section \<open>A concurrency limit that is not positive\<close>

text \<open>
  C8, as the code has it. A concurrency limit \<open>n \<le> 0\<close> is not rejected: \<^verbatim>\<open>getConfiguration\<close>
  accepts the command line exactly when it accepts it without the option, and stores the
  limit unchanged in the configuration. The run then launches the browser and calls the
  login, and after a successful login the task discovery, as for any other limit. Only the
  download phase differs: with \<open>n \<le> 0\<close> no download is ever called.
\<close>

theorem nonpositive_concurrency_accepted:
  assumes conf: "getConfiguration c (typed_user env) (typed_password env) [] = (h, Inr r)"
    and limit: "concurrency_opt c = Some (Fin n)" "n \<le> 0"
  shows "deref h r ''concurrency'' = Some (Number (Fin n))
       \<and> (\<exists>h' r'. getConfiguration (c\<lparr>concurrency_opt := None\<rparr>) (typed_user env) (typed_password env) []
              = (h', Inr r'))
       \<and> (puppeteer_launch env = None \<longrightarrow> Login \<in> set (fst (main c env sched)))
       \<and> (puppeteer_launch env = None
            \<and> (\<exists>u. snd (login_phase (backoffConfig (or_default (retries_opt c) (Fin 3))) env) = Inr u)
          \<longrightarrow> GetDownloadTasks \<in> set (fst (main c env sched)))
       \<and> (\<forall>t. PerformDownload t \<notin> set (fst (main c env sched)))"
proof (intro conjI impI allI)
  let ?cfg = "backoffConfig (or_default (retries_opt c) (Fin 3))"
  have N: "or_default (concurrency_opt c) (Fin 4) = Fin n" by (simp add: limit or_default_def)
  show "deref h r ''concurrency'' = Some (Number (Fin n))"
    using getConfiguration_Inr(3) [OF conf] N by simp
  show "\<exists>h' r'. getConfiguration (c\<lparr>concurrency_opt := None\<rparr>) (typed_user env) (typed_password env) []
              = (h', Inr r')"
    using getConfiguration_Inr_conditions [OF conf]
    by (auto intro!: getConfiguration_accepts)
  show "Login \<in> set (fst (main c env sched))" if "puppeteer_launch env = None"
  proof -
    obtain rest where "fst (main_login ?cfg (Fin n) env sched) = Login # rest"
      using main_login_first by blast
    then show ?thesis using that by (simp add: main_Inr [OF conf] N)
  qed
  show "GetDownloadTasks \<in> set (fst (main c env sched))"
    if "puppeteer_launch env = None \<and> (\<exists>u. snd (login_phase ?cfg env) = Inr u)"
    using that main_reaches_discovery [OF conf] by blast
  show "PerformDownload t \<notin> set (fst (main c env sched))" for t
  proof
    assume "PerformDownload t \<in> set (fst (main c env sched))"
    then have launch: "puppeteer_launch env = None"
      and l: "PerformDownload t \<in> set (fst (main_login ?cfg (Fin n) env sched))"
      by (auto simp: main_Inr [OF conf] N split: option.splits if_splits)
    from l login_phase_only(1) [of t ?cfg env] obtain u where
      u: "snd (login_phase ?cfg env) = Inr u"
      and mt: "PerformDownload t \<in> set (fst (main_tasks ?cfg (Fin n) env sched))"
      by (cases "snd (login_phase ?cfg env)") (auto simp: main_login_failed main_login_done)
    from mt discovery_phase_only(1) [of t ?cfg env] obtain tasks where
      tasks: "snd (discovery_phase ?cfg env) = Inr tasks"
      and md: "PerformDownload t \<in> set (fst (main_downloads ?cfg (Fin n) env sched tasks))"
      by (cases "snd (discovery_phase ?cfg env)") (auto simp: main_tasks_failed main_tasks_done)
    have none: "acts (final_pool ?cfg (Fin n) env sched tasks) = []"
      using limit(2) by (rule idle_final_pool)
    from md main_report_acts [of "PerformDownload t" env] show False
      by (auto simp: main_downloads_def Let_def none catch_def split: option.splits sum.splits prod.splits)
  qed
qed

theorem nonpositive_concurrency_counterexample:
  "filter (\<lambda>a. \<not> startup_act a) (fst (main (c8 0) w7 [])) = [Login, GetDownloadTasks]"
proof -
  obtain h r where
    conf: "getConfiguration (c8 0) (typed_user w7) (typed_password w7) [] = (h, Inr r)"
    using c8_accepted by blast
  have opts: "or_default (retries_opt (c8 0)) (Fin 3) = Fin 3"
    "or_default (concurrency_opt (c8 0)) (Fin 4) = Fin 0" "\<not> debug_opt (c8 0)"
    "puppeteer_launch w7 = None"
    by (simp_all add: c8_def w7_def or_default_def)
  have ml: "main_login (backoffConfig (Fin 3)) (Fin 0) w7 [] = ([Login, GetDownloadTasks], Pending)"
    by (simp add: run_simps w7_def)
  have "main (c8 0) w7 []
      = (Launch # NewDownloader (deref h r) # fst (main_login (backoffConfig (Fin 3)) (Fin 0) w7 []),
         snd (main_login (backoffConfig (Fin 3)) (Fin 0) w7 []))"
    by (simp add: main_Inr [OF conf] opts)
  then show ?thesis by (simp add: ml)
qed

theorem nonpositive_concurrency_accepted_witness:
  "Login \<in> set (fst (main (c8 (- 2)) w7 []))
   \<and> GetDownloadTasks \<in> set (fst (main (c8 (- 2)) w7 []))
   \<and> (\<forall>t. PerformDownload t \<notin> set (fst (main (c8 (- 2)) w7 [])))"
proof -
  obtain h r where
    conf: "getConfiguration (c8 (- 2)) (typed_user w7) (typed_password w7) [] = (h, Inr r)"
    using c8_accepted by blast
  have limit: "concurrency_opt (c8 (- 2)) = Some (Fin (- 2))" "(- 2 :: int) \<le> 0"
    by (simp_all add: c8_def)
  note t = nonpositive_concurrency_accepted [OF conf limit, of "[]"]
  have launch: "puppeteer_launch w7 = None" by (simp add: w7_def)
  have "\<exists>u. snd (login_phase (backoffConfig (or_default (retries_opt (c8 (- 2))) (Fin 3))) w7) = Inr u"
    by (simp add: login_phase_at_once w7_def)
  with t launch show ?thesis by blast
qed

section \<open>The browser\<close>

text \<open>
  C6. In a run that has its configuration, the browser is launched exactly once, before
  anything but the debug dump, so before the login. When the launch succeeds, every run
  that ends the process ends with a call of \<^verbatim>\<open>browser.close()\<close>, on the success path and on
  every path through the catch block alike (there the call is made and not awaited). With
  a concurrency limit of at least 1 (the default is 4) every such run does end the
  process: it exits with status 0 or 1 and its last action is the call of
  \<^verbatim>\<open>browser.close()\<close>. Every run in which an error reaches the catch block exits with
  status 1; in particular a run whose login or whose task discovery exhausts its retries
  does. When the launch itself fails there is no browser to close, and the run exits with
  status 1.
\<close>

theorem browser_released:
  assumes conf: "getConfiguration c (typed_user env) (typed_password env) [] = (h, Inr r)"
    and cfg: "cfg = backoffConfig (or_default (retries_opt c) (Fin 3))"
  shows "(\<exists>pre post. fst (main c env sched) = pre @ Launch # post
            \<and> (\<forall>a \<in> set pre. \<exists>ob. a = Dump ob) \<and> Launch \<notin> set post)
       \<and> (puppeteer_launch env = None \<longrightarrow>
            (\<forall>code. snd (main c env sched) = Exit code \<longrightarrow> last (fst (main c env sched)) = Close))
       \<and> (puppeteer_launch env = None
            \<and> (\<exists>n. or_default (concurrency_opt c) (Fin 4) = Fin n \<and> 1 \<le> n) \<longrightarrow>
            (\<exists>code. snd (main c env sched) = Exit code \<and> code \<le> 1)
            \<and> last (fst (main c env sched)) = Close)
       \<and> (\<forall>e. ConsoleError e \<in> set (fst (main c env sched)) \<longrightarrow> snd (main c env sched) = Exit 1)
       \<and> (\<forall>e. puppeteer_launch env = Some e \<longrightarrow>
            snd (main c env sched) = Exit 1 \<and> Close \<notin> set (fst (main c env sched)))
       \<and> (puppeteer_launch env = None \<longrightarrow>
            (\<forall>e. snd (login_phase cfg env) = Inl e \<longrightarrow>
               ConsoleError e \<in> set (fst (main c env sched)) \<and> snd (main c env sched) = Exit 1)
          \<and> (\<forall>u e. snd (login_phase cfg env) = Inr u \<and> snd (discovery_phase cfg env) = Inl e \<longrightarrow>
               ConsoleError e \<in> set (fst (main c env sched)) \<and> snd (main c env sched) = Exit 1))"
proof -
  let ?N = "or_default (concurrency_opt c) (Fin 4)"
  define dump :: "('a, 'b) action list"
    where "dump = (if debug_opt c then [Dump (deref h r ++ censor)] else [])"
  define ml where "ml = main_login cfg ?N env sched"
  have dump: "\<forall>a \<in> set dump. \<exists>ob. a = Dump ob" by (simp add: dump_def)
  have ml_ends: "ends_closed (fst ml, snd ml)" using main_login_ends [of cfg ?N env sched] by (simp add: ml_def)
  have ml_launch: "Launch \<notin> set (fst ml)"
    using main_login_not_startup [of Launch cfg ?N env sched] by (auto simp: ml_def)
  show ?thesis
  proof (cases "puppeteer_launch env")
    case (Some e)
    have run: "main c env sched = (dump @ Launch # [ConsoleError e], Exit 1)"
      by (simp add: main_Inr [OF conf] Some dump_def)
    have "\<exists>pre post. fst (main c env sched) = pre @ Launch # post
            \<and> (\<forall>a \<in> set pre. \<exists>ob. a = Dump ob) \<and> Launch \<notin> set post"
      unfolding run fst_conv using dump by (intro exI [of _ dump] exI [of _ "[ConsoleError e]"]) simp
    moreover have "Close \<notin> set (fst (main c env sched))" using dump by (auto simp: run)
    ultimately show ?thesis using Some by (simp add: run)
  next
    case None
    have run: "main c env sched = (dump @ Launch # NewDownloader (deref h r) # fst ml, snd ml)"
      by (simp add: main_Inr [OF conf] None dump_def ml_def cfg)
    have first: "\<exists>pre post. fst (main c env sched) = pre @ Launch # post
            \<and> (\<forall>a \<in> set pre. \<exists>ob. a = Dump ob) \<and> Launch \<notin> set post"
      unfolding run fst_conv using dump ml_launch
      by (intro exI [of _ dump] exI [of _ "NewDownloader (deref h r) # fst ml"]) simp
    have closed: "last (fst (main c env sched)) = Close" if "snd (main c env sched) = Exit code" for code
      using that ml_ends by (simp add: run ends_closed_def)
    have exits: "(\<exists>code. snd (main c env sched) = Exit code \<and> code \<le> 1)
        \<and> last (fst (main c env sched)) = Close"
      if "\<exists>n. ?N = Fin n \<and> 1 \<le> n"
    proof -
      from that obtain n where n: "?N = Fin n" "1 \<le> n" by blast
      from main_login_exits [OF n(2), of cfg env sched] obtain code where
        code: "snd ml = Exit code" "code \<le> 1" by (auto simp: ml_def n(1))
      then have "snd (main c env sched) = Exit code" by (simp add: run)
      with code(2) closed show ?thesis by blast
    qed
    have errors: "snd (main c env sched) = Exit 1" if "ConsoleError e \<in> set (fst (main c env sched))" for e
      using that ml_ends dump by (auto simp: run ends_closed_def)
    have login: "ConsoleError e \<in> set (fst (main c env sched)) \<and> snd (main c env sched) = Exit 1"
      if "snd (login_phase cfg env) = Inl e" for e
      using main_login_failed [OF that, of ?N sched] by (simp add: run ml_def)
    have discovery: "ConsoleError e \<in> set (fst (main c env sched)) \<and> snd (main c env sched) = Exit 1"
      if "snd (login_phase cfg env) = Inr u \<and> snd (discovery_phase cfg env) = Inl e" for u e
      using that main_login_done [of cfg env u ?N sched] main_tasks_failed [of cfg env e ?N sched]
      by (simp add: run ml_def)
    from first closed exits errors login discovery None show ?thesis by simp
  qed
qed

theorem browser_released_witness:
  "snd (main c7 w7 []) = Exit 0
   \<and> last (fst (main c7 w7 [])) = Close
   \<and> (\<forall>e. ConsoleError e \<notin> set (fst (main c7 w7 [])))
   \<and> snd (main c7 e6 []) = Exit 1
   \<and> last (fst (main c7 e6 [])) = Close
   \<and> ConsoleError ''denied'' \<in> set (fst (main c7 e6 []))"
proof -
  let ?cfg = "backoffConfig (or_default (retries_opt c7) (Fin 3))"
  obtain h r where
    conf: "getConfiguration c7 (typed_user e6) (typed_password e6) [] = (h, Inr r)"
    using c7_accepted by blast
  obtain h' r' where
    conf': "getConfiguration c7 (typed_user w7) (typed_password w7) [] = (h', Inr r')"
    using c7_accepted by blast
  note t = browser_released [OF conf refl, of "[]"]
  note t' = browser_released [OF conf' refl, of "[]"]
  have launch: "puppeteer_launch e6 = None" by (simp add: e6_def)
  have launch': "puppeteer_launch w7 = None" by (simp add: w7_def)
  have n: "\<exists>n. or_default (concurrency_opt c7) (Fin 4) = Fin n \<and> 1 \<le> n"
    unfolding c7_opts by simp
  have "snd (login_phase ?cfg e6) = Inl ''denied''"
    unfolding c7_opts by (simp add: login_phase_def retryBackoff.simps backoff_def backoffConfig_def e6_def)
  with t launch have failed: "ConsoleError ''denied'' \<in> set (fst (main c7 e6 []))"
    "snd (main c7 e6 []) = Exit 1"
    by blast+
  from t launch n have closed: "last (fst (main c7 e6 [])) = Close" by blast
  from t' launch' n have closed': "last (fst (main c7 w7 [])) = Close" by blast
  have "snd (main c7 w7 []) = Exit 0"
    by (simp add: main_Inr [OF conf'] launch' c7_opts w7_login)
  moreover from this t' have "\<forall>e. ConsoleError e \<notin> set (fst (main c7 w7 []))" by auto
  ultimately show ?thesis using failed closed closed' by simp
qed

section \<open>The sequence of the phases\<close>

text \<open>
  C5. In every run the calls of the three phases are made in the order login, task
  discovery, download: no login call follows a discovery or download call, and no
  discovery call follows a download call, so no two phases are ever active together. The
  discovery is called only in a run whose retried login has succeeded, and a download is
  called only in a run whose retried discovery has succeeded, for a task of the array that
  the discovery resolved with.
\<close>

theorem phases_in_sequence:
  assumes cfg: "cfg = backoffConfig (or_default (retries_opt c) (Fin 3))"
  shows "sorted (phases (fst (main c env sched)))
       \<and> (GetDownloadTasks \<in> set (fst (main c env sched)) \<longrightarrow>
            (\<exists>u. snd (login_phase cfg env) = Inr u))
       \<and> (\<forall>t. PerformDownload t \<in> set (fst (main c env sched)) \<longrightarrow>
            (\<exists>u. snd (login_phase cfg env) = Inr u)
          \<and> (\<exists>tasks. snd (discovery_phase cfg env) = Inr tasks \<and> t \<in> set tasks))"
proof (cases "getConfiguration c (typed_user env) (typed_password env) []")
  case (Pair h res)
  show ?thesis
  proof (cases res)
    case (Inl code)
    with Pair show ?thesis by (simp add: main_def)
  next
    case (Inr r)
    with Pair have conf: "getConfiguration c (typed_user env) (typed_password env) [] = (h, Inr r)"
      by simp
    let ?N = "or_default (concurrency_opt c) (Fin 4)"
    define dump :: "('a, 'b) action list"
      where "dump = (if debug_opt c then [Dump (deref h r ++ censor)] else [])"
    have dump: "phases dump = []" "GetDownloadTasks \<notin> set dump" "PerformDownload t \<notin> set dump" for t
      by (simp_all add: dump_def)
    show ?thesis
    proof (cases "puppeteer_launch env")
      case (Some e)
      have "fst (main c env sched) = dump @ [Launch, ConsoleError e]"
        by (simp add: main_Inr [OF conf] Some dump_def)
      then show ?thesis using dump by (simp add: phases_append)
    next
      case None
      define ml where "ml = fst (main_login cfg ?N env sched)"
      have run: "fst (main c env sched) = (dump @ [Launch, NewDownloader (deref h r)]) @ ml"
        by (simp add: main_Inr [OF conf] None dump_def ml_def cfg)
      have "in_order 1 ml" unfolding ml_def by (rule main_login_in_order)
      then have sorted: "sorted (phases (fst (main c env sched)))"
        using dump(1) by (simp add: run phases_append in_order_def)
      have disc: "\<exists>u. snd (login_phase cfg env) = Inr u" if "GetDownloadTasks \<in> set ml"
      proof (cases "snd (login_phase cfg env)")
        case (Inl e)
        with that login_phase_only(3) [of cfg env] show ?thesis
          by (simp add: ml_def main_login_failed)
      next
        case (Inr u)
        then show ?thesis by blast
      qed
      have down: "(\<exists>u. snd (login_phase cfg env) = Inr u)
          \<and> (\<exists>tasks. snd (discovery_phase cfg env) = Inr tasks \<and> t \<in> set tasks)"
        if t: "PerformDownload t \<in> set ml" for t
      proof -
        from t login_phase_only(1) [of t cfg env] obtain u where
          u: "snd (login_phase cfg env) = Inr u"
          and mt: "PerformDownload t \<in> set (fst (main_tasks cfg ?N env sched))"
          by (cases "snd (login_phase cfg env)") (auto simp: ml_def main_login_failed main_login_done)
        from mt discovery_phase_only(1) [of t cfg env] obtain tasks where
          tasks: "snd (discovery_phase cfg env) = Inr tasks"
          and md: "PerformDownload t \<in> set (fst (main_downloads cfg ?N env sched tasks))"
          by (cases "snd (discovery_phase cfg env)") (auto simp: main_tasks_failed main_tasks_done)
        from md have "t \<in> set tasks" by (rule main_downloads_of_tasks)
        with u tasks show ?thesis by blast
      qed
      from sorted disc down dump show ?thesis by (simp add: run)
    qed
  qed
qed

theorem phases_in_sequence_witness:
  "GetDownloadTasks \<in> set (fst (main c9 e9 []))
   \<and> PerformDownload ''week1'' \<in> set (fst (main c9 e9 []))
   \<and> sorted (phases (fst (main c9 e9 [])))
   \<and> (\<exists>u. snd (login_phase (backoffConfig (Fin 3)) e9) = Inr u)
   \<and> (\<exists>tasks. snd (discovery_phase (backoffConfig (Fin 3)) e9) = Inr tasks \<and> ''week1'' \<in> set tasks)"
proof -
  have "\<exists>h r. getConfiguration c9 (typed_user e9) (typed_password e9) [] = (h, Inr r)"
    by (rule getConfiguration_accepts [OF _ _ course_url_X]) (simp_all add: c9_def)
  then obtain h r where
    conf: "getConfiguration c9 (typed_user e9) (typed_password e9) [] = (h, Inr r)"
    by blast
  have opts: "or_default (retries_opt c9) (Fin 3) = Fin 3"
    "or_default (concurrency_opt c9) (Fin 4) = Fin 4" "\<not> debug_opt c9"
    "puppeteer_launch e9 = None"
    by (simp_all add: c9_def e9_def or_default_def)
  have ml: "main_login (backoffConfig (Fin 3)) (Fin 4) e9 []
      = ([Login, Wait 5000, Login, GetDownloadTasks, PerformDownload ''week1'',
          ReportResults [''week1.pdf''], Close], Exit 0)"
    by (simp add: run_simps e9_def)
  have "fst (main c9 e9 [])
      = Launch # NewDownloader (deref h r) # fst (main_login (backoffConfig (Fin 3)) (Fin 4) e9 [])"
    by (simp add: main_Inr [OF conf] opts)
  then have reached: "GetDownloadTasks \<in> set (fst (main c9 e9 []))"
    "PerformDownload ''week1'' \<in> set (fst (main c9 e9 []))"
    by (simp_all add: ml)
  have cfg: "backoffConfig (Fin 3) = backoffConfig (or_default (retries_opt c9) (Fin 3))"
    by (simp add: opts)
  note t = phases_in_sequence [OF cfg, of e9 "[]"]
  from t have "sorted (phases (fst (main c9 e9 [])))" by blast
  moreover from t reached(1) have "\<exists>u. snd (login_phase (backoffConfig (Fin 3)) e9) = Inr u"
    by blast
  moreover from t reached(2)
  have "\<exists>tasks. snd (discovery_phase (backoffConfig (Fin 3)) e9) = Inr tasks \<and> ''week1'' \<in> set tasks"
    by blast
  ultimately show ?thesis using reached by blast
qed

end
